theory Spec2Isabelle
  imports Main "HOL-Library.Word" "HOL-Library.Monad_Syntax"
begin

unbundle bit_operations_syntax

section \<open>Machine types and configuration\<close>

text \<open>
  The target is an 8-bit AVR: \<^verbatim>\<open>byte\<close> is an unsigned 8-bit value, \<^verbatim>\<open>char\<close> a signed
  8-bit value, \<^verbatim>\<open>int\<close> (and so \<^verbatim>\<open>POINT\<close>) a signed 16-bit value, \<^verbatim>\<open>unsigned int\<close> 16 bits,
  \<^verbatim>\<open>unsigned long\<close> and \<^verbatim>\<open>ARGB\<close> 32 bits, stored little-endian. All of them are words;
  signedness is a matter of how a word is read (\<open>sint\<close>, \<open><s\<close>, \<open>\<le>s\<close>).
  The header fixes \<^verbatim>\<open>ARGB_PANELS = 1\<close>, hence \<^verbatim>\<open>ARGB_MAX_X = 8\<close>, \<^verbatim>\<open>ARGB_MAX_Y = 8\<close>,
  a framebuffer of \<open>8 * 8 * 3 = 192\<close> bytes, and \<^verbatim>\<open>ARGB_FRAMERATE = 125\<close>.
\<close>

type_synonym byte = "8 word"
type_synonym schar = "8 word"
type_synonym POINT = "16 word"
type_synonym uint = "16 word"
type_synonym ulong = "32 word"
type_synonym ARGB = "32 word"

abbreviation (input) ARGB_MAX_X :: "'a::numeral" where "ARGB_MAX_X \<equiv> 8"
abbreviation (input) ARGB_MAX_Y :: "'a::numeral" where "ARGB_MAX_Y \<equiv> 8"
abbreviation (input) ARGB_FRAMERATE :: "'a::numeral" where "ARGB_FRAMERATE \<equiv> 125"

section \<open>Colour utilities\<close>

text \<open>The four bytes of a packed colour, lowest address first: B, G, R, A.\<close>

definition color_b :: "ARGB \<Rightarrow> byte" where "color_b c = ucast c"
definition color_g :: "ARGB \<Rightarrow> byte" where "color_g c = ucast (drop_bit 8 c)"
definition color_r :: "ARGB \<Rightarrow> byte" where "color_r c = ucast (drop_bit 16 c)"
definition color_a :: "ARGB \<Rightarrow> byte" where "color_a c = ucast (drop_bit 24 c)"

definition MakeARGB :: "byte \<Rightarrow> byte \<Rightarrow> byte \<Rightarrow> byte \<Rightarrow> ARGB" where
  "MakeARGB a r g b =
     ucast b OR push_bit 8 (ucast g) OR push_bit 16 (ucast r) OR push_bit 24 (ucast a)"

text \<open>
  \<^verbatim>\<open>((unsigned int)p * u + (unsigned int)q * v) >> 8\<close> stored into a byte: the sum is
  formed in 16 bits and its second byte is kept.
\<close>

definition mix :: "uint \<Rightarrow> byte \<Rightarrow> uint \<Rightarrow> byte \<Rightarrow> byte" where
  "mix p u q v = ucast (drop_bit 8 (p * ucast u + q * ucast v))"

definition scale :: "byte \<Rightarrow> byte \<Rightarrow> byte" where
  "scale f v = ucast (drop_bit 8 ((ucast f :: uint) * ucast v))"

text \<open>
  In \<^verbatim>\<open>BlendARGB\<close> the alpha line complements \<^verbatim>\<open>ratio\<close> after its promotion to
  \<^verbatim>\<open>int\<close>, so the factor is the 16-bit complement.
\<close>

definition BlendARGB :: "ARGB \<Rightarrow> ARGB \<Rightarrow> byte \<Rightarrow> byte \<Rightarrow> ARGB" where
  "BlendARGB c1 c2 ratio fade =
     (let ratio1 = (if fade \<noteq> 255 then scale fade ratio else ratio);
          ratio2 = (if fade \<noteq> 255 then scale fade (NOT ratio) else NOT ratio);
          b = mix (ucast ratio2) (color_b c1) (ucast ratio1) (color_b c2);
          g = mix (ucast ratio2) (color_g c1) (ucast ratio1) (color_g c2);
          r = mix (ucast ratio2) (color_r c1) (ucast ratio1) (color_r c2);
          a = mix (NOT (ucast ratio)) (color_a c1) (ucast ratio) (color_a c2)
      in MakeARGB a r g b)"

definition BaseColors :: "ARGB list" where
  "BaseColors =
     [0xFFFF0000, 0xFFFF2000, 0xFFFF8000, 0xFF808000,
      0xFF008000, 0xFF008080, 0xFF0080FF, 0xFF0020FF,
      0xFF0000FF, 0xFF8000FF, 0xFFFF00FF, 0xFFFF0080]"

text \<open>
  A read of a table in program memory: \<open>None\<close> stands for a read past the end of the
  table, which the program never checks for.
\<close>

definition pgm_read :: "'a list \<Rightarrow> nat \<Rightarrow> 'a option" where
  "pgm_read tbl i = (if i < length tbl then Some (tbl ! i) else None)"

definition GetBaseColor :: "byte \<Rightarrow> ARGB option" where
  "GetBaseColor color1 = pgm_read BaseColors (unat color1 mod 12)"

definition BlendBaseColors :: "byte \<Rightarrow> byte \<Rightarrow> byte \<Rightarrow> byte \<Rightarrow> ARGB option" where
  "BlendBaseColors color1 color2 blend fade =
     do {
       c1 \<leftarrow> pgm_read BaseColors (unat color1 mod 12);
       c2 \<leftarrow> pgm_read BaseColors (unat color2 mod 12);
       Some (BlendARGB c1 c2 blend fade)
     }"

section \<open>Framebuffer and pixel compositor\<close>

text \<open>
  The drawing target is an array of 192 bytes. Pixels are stored row by row, the
  rightmost pixel of a row first, each pixel as the three bytes R, G, B. Offsets into the
  array are integers, since the code computes them with pointer arithmetic; a read or a
  write whose offset falls outside the array has no defined result and is \<open>None\<close>.
\<close>

type_synonym framebuffer = "byte list"

definition peek :: "framebuffer \<Rightarrow> int \<Rightarrow> byte option" where
  "peek fb p = (if 0 \<le> p \<and> p < int (length fb) then Some (fb ! nat p) else None)"

definition poke :: "framebuffer \<Rightarrow> int \<Rightarrow> byte \<Rightarrow> framebuffer option" where
  "poke fb p v = (if 0 \<le> p \<and> p < int (length fb) then Some (fb[nat p := v]) else None)"

text \<open>Offset of the red byte of pixel \<open>(x, y)\<close>, and the pixel read back as (R, G, B).\<close>

definition pixel_offset :: "nat \<Rightarrow> nat \<Rightarrow> nat" where
  "pixel_offset x y = 3 * ((ARGB_MAX_X - 1 - x) + y * ARGB_MAX_X)"

definition get_pixel :: "framebuffer \<Rightarrow> nat \<Rightarrow> nat \<Rightarrow> byte \<times> byte \<times> byte" where
  "get_pixel fb x y =
     (fb ! pixel_offset x y, fb ! (pixel_offset x y + 1), fb ! (pixel_offset x y + 2))"

text \<open>The pixel \<open>(x, y)\<close> of the result of an operation that may fail.\<close>

definition pixel_after :: "framebuffer option \<Rightarrow> nat \<Rightarrow> nat \<Rightarrow> (byte \<times> byte \<times> byte) option" where
  "pixel_after r x y = map_option (\<lambda>fb. get_pixel fb x y) r"

text \<open>One line of the blending branch: \<^verbatim>\<open>*pb = (a1 * (*pb) + a * c) >> 8\<close>.\<close>

definition blend_at :: "byte \<Rightarrow> byte \<Rightarrow> byte \<Rightarrow> framebuffer \<Rightarrow> int \<Rightarrow> framebuffer option" where
  "blend_at a1 a c fb pb =
     do { bg \<leftarrow> peek fb pb; poke fb pb (mix (ucast a1) bg (ucast a) c) }"

definition SetPixel :: "framebuffer \<Rightarrow> POINT \<Rightarrow> POINT \<Rightarrow> ARGB \<Rightarrow> framebuffer option" where
  "SetPixel fb x y color =
     (let pb = 2 + sint (3 * ((ARGB_MAX_X - 1 - x) + y * ARGB_MAX_X));
          c_b = color_b color;
          c_g = color_g color;
          c_r = color_r color;
          a = color_a color;
          a1 = NOT a
      in if a1 \<noteq> 0 then
           do {
             fb \<leftarrow> blend_at a1 a c_b fb pb;
             fb \<leftarrow> blend_at a1 a c_g fb (pb - 1);
             blend_at a1 a c_r fb (pb - 2)
           }
         else
           do {
             fb \<leftarrow> poke fb pb c_b;
             fb \<leftarrow> poke fb (pb - 1) c_g;
             poke fb (pb - 2) c_r
           })"

text \<open>
  \<^verbatim>\<open>Fill\<close> and \<^verbatim>\<open>Fade\<close> walk a pointer upwards from the start of the array, sixteen
  rounds of four pixels each, so they touch exactly the offsets 0 to 191.
\<close>

definition Fill_pixel :: "byte \<Rightarrow> byte \<Rightarrow> byte \<Rightarrow> framebuffer \<times> nat \<Rightarrow> framebuffer \<times> nat" where
  "Fill_pixel r g b = (\<lambda>(fb, p). (fb[p := r, p + 1 := g, p + 2 := b], p + 3))"

fun Fill_loop :: "nat \<Rightarrow> byte \<Rightarrow> byte \<Rightarrow> byte \<Rightarrow> framebuffer \<times> nat \<Rightarrow> framebuffer \<times> nat" where
  "Fill_loop 0 r g b s = s"
| "Fill_loop (Suc cnt) r g b s =
     Fill_loop cnt r g b
       (Fill_pixel r g b (Fill_pixel r g b (Fill_pixel r g b (Fill_pixel r g b s))))"

definition Fill :: "framebuffer \<Rightarrow> ARGB \<Rightarrow> framebuffer" where
  "Fill fb color =
     (let b = ucast color;
          r = ucast (drop_bit 8 color);
          g = ucast (drop_bit 16 color)
      in fst (Fill_loop (ARGB_MAX_X * ARGB_MAX_Y div 4) r g b (fb, 0)))"

definition Fade_byte :: "byte \<Rightarrow> framebuffer \<times> nat \<Rightarrow> framebuffer \<times> nat" where
  "Fade_byte alpha = (\<lambda>(fb, pb). (fb[pb := scale alpha (fb ! pb)], pb + 1))"

definition Fade_pixel :: "byte \<Rightarrow> framebuffer \<times> nat \<Rightarrow> framebuffer \<times> nat" where
  "Fade_pixel alpha s = Fade_byte alpha (Fade_byte alpha (Fade_byte alpha s))"

fun Fade_loop :: "nat \<Rightarrow> byte \<Rightarrow> framebuffer \<times> nat \<Rightarrow> framebuffer \<times> nat" where
  "Fade_loop 0 alpha s = s"
| "Fade_loop (Suc cnt) alpha s =
     Fade_loop cnt alpha
       (Fade_pixel alpha (Fade_pixel alpha (Fade_pixel alpha (Fade_pixel alpha s))))"

definition Fade :: "framebuffer \<Rightarrow> byte \<Rightarrow> framebuffer" where
  "Fade fb alpha = fst (Fade_loop (ARGB_MAX_X * ARGB_MAX_Y div 4) alpha (fb, 0))"

text \<open>
  \<^verbatim>\<open>ScrollLeft\<close> walks a pointer downwards from the blue byte of the leftmost pixel of
  each row. \<open>k\<close> is \<^verbatim>\<open>3 * steps\<close>, the distance in bytes to the source pixel.
\<close>

definition scroll_copy :: "int \<Rightarrow> framebuffer \<times> int \<Rightarrow> (framebuffer \<times> int) option" where
  "scroll_copy k = (\<lambda>(fb, pto).
     do { v \<leftarrow> peek fb (pto - k); fb' \<leftarrow> poke fb pto v; Some (fb', pto - 1) })"

definition scroll_zero :: "framebuffer \<times> int \<Rightarrow> (framebuffer \<times> int) option" where
  "scroll_zero = (\<lambda>(fb, pto). do { fb' \<leftarrow> poke fb pto 0; Some (fb', pto - 1) })"

fun scroll_copy_loop :: "nat \<Rightarrow> int \<Rightarrow> framebuffer \<times> int \<Rightarrow> (framebuffer \<times> int) option" where
  "scroll_copy_loop 0 k s = Some s"
| "scroll_copy_loop (Suc cnt) k s =
     do {
       s \<leftarrow> scroll_copy k s;
       s \<leftarrow> scroll_copy k s;
       s \<leftarrow> scroll_copy k s;
       scroll_copy_loop cnt k s
     }"

fun scroll_zero_loop :: "nat \<Rightarrow> framebuffer \<times> int \<Rightarrow> (framebuffer \<times> int) option" where
  "scroll_zero_loop 0 s = Some s"
| "scroll_zero_loop (Suc cnt) s =
     do {
       s \<leftarrow> scroll_zero s;
       s \<leftarrow> scroll_zero s;
       s \<leftarrow> scroll_zero s;
       scroll_zero_loop cnt s
     }"

fun scroll_lines :: "nat \<Rightarrow> byte \<Rightarrow> framebuffer \<times> int \<Rightarrow> (framebuffer \<times> int) option" where
  "scroll_lines 0 steps s = Some s"
| "scroll_lines (Suc line) steps s =
     do {
       s \<leftarrow> scroll_copy_loop (unat (ARGB_MAX_X - steps)) (3 * uint steps) s;
       (fb, pto) \<leftarrow> scroll_zero_loop (unat steps) s;
       scroll_lines line steps (fb, pto + ARGB_MAX_X * 2 * 3)
     }"

definition ScrollLeft :: "framebuffer \<Rightarrow> byte \<Rightarrow> framebuffer option" where
  "ScrollLeft fb steps =
     map_option fst (scroll_lines ARGB_MAX_Y steps (fb, 3 * (ARGB_MAX_X - 1) + 2))"

section \<open>Timekeeping in the timer interrupt\<close>

record clock =
  line :: byte
  ARGB_user_frame :: byte
  ARGB_clock_ms :: uint
  ARGB_clock_tod :: ulong

definition ISR_timekeeping :: "clock \<Rightarrow> clock" where
  "ISR_timekeeping s =
     (let l = line s + 1 in
      if l \<ge> ARGB_MAX_Y then
        (let ms = ARGB_clock_ms s + 1000 div ARGB_FRAMERATE;
             s1 = s\<lparr>line := 0, ARGB_user_frame := 1, ARGB_clock_ms := ms\<rparr>
         in if ms \<ge> 1000 then
              (let tod = ARGB_clock_tod s1 + 1
               in s1\<lparr>ARGB_clock_ms := 0,
                     ARGB_clock_tod := (if tod \<ge> 86400 then 0 else tod)\<rparr>)
            else s1)
      else s\<lparr>line := l\<rparr>)"

definition clock_init :: clock where
  "clock_init = \<lparr>line = 0, ARGB_user_frame = 0, ARGB_clock_ms = 0, ARGB_clock_tod = 0\<rparr>"

section \<open>Shape rasterizer\<close>

text \<open>
  A shape operation touches the framebuffer only through \<^verbatim>\<open>SetPixel\<close>, always with the
  colour it was given. Each operation is therefore modelled by the list of coordinates at
  which it calls \<^verbatim>\<open>SetPixel\<close>, in call order; \<open>plot\<close> replays such a list on a
  framebuffer.
\<close>

type_synonym calls = "(POINT \<times> POINT) list"

fun plot :: "framebuffer \<Rightarrow> ARGB \<Rightarrow> calls \<Rightarrow> framebuffer option" where
  "plot fb color [] = Some fb"
| "plot fb color ((x, y) # cs) = do { fb' \<leftarrow> SetPixel fb x y color; plot fb' color cs }"

text \<open>The guard that \<^verbatim>\<open>DrawLine\<close> evaluates before each pixel.\<close>

definition in_range :: "POINT \<Rightarrow> POINT \<Rightarrow> bool" where
  "in_range x y = (0 \<le>s x \<and> x <s ARGB_MAX_X \<and> 0 \<le>s y \<and> y <s ARGB_MAX_Y)"

definition all_in_range :: "calls \<Rightarrow> bool" where
  "all_in_range cs = list_all (\<lambda>(x, y). in_range x y) cs"

text \<open>
  \<^verbatim>\<open>while (x < 0 && w) { x++; w--; }\<close>, the loop at the head of \<^verbatim>\<open>HLine\<close>,
  \<^verbatim>\<open>VLine\<close> and (twice) \<^verbatim>\<open>FillRect\<close>.
\<close>

function clip_neg :: "POINT \<Rightarrow> byte \<Rightarrow> POINT \<times> byte" where
  "clip_neg x w = (if x <s 0 \<and> w \<noteq> 0 then clip_neg (x + 1) (w - 1) else (x, w))"
  by pat_completeness auto
termination
  by (relation "measure (\<lambda>(x, w). unat w)") (auto simp add: unat_minus_one unat_gt_0)

declare clip_neg.simps [simp del]

text \<open>\<^verbatim>\<open>while (w-- && (x < ARGB_MAX_X)) SetPixel(x++,y,color);\<close>\<close>

function HLine_run :: "POINT \<Rightarrow> POINT \<Rightarrow> byte \<Rightarrow> calls" where
  "HLine_run x y w =
     (if w \<noteq> 0 \<and> x <s ARGB_MAX_X then (x, y) # HLine_run (x + 1) y (w - 1) else [])"
  by pat_completeness auto
termination
  by (relation "measure (\<lambda>(x, y, w). unat w)") (auto simp add: unat_minus_one unat_gt_0)

declare HLine_run.simps [simp del]

definition HLine :: "POINT \<Rightarrow> POINT \<Rightarrow> byte \<Rightarrow> calls" where
  "HLine x y w =
     (if 0 \<le>s y \<and> y <s ARGB_MAX_Y then (let (x', w') = clip_neg x w in HLine_run x' y w')
      else [])"

text \<open>\<^verbatim>\<open>while (w-- && (y < ARGB_MAX_Y)) SetPixel(x,y++,color);\<close>\<close>

function VLine_run :: "POINT \<Rightarrow> POINT \<Rightarrow> byte \<Rightarrow> calls" where
  "VLine_run x y w =
     (if w \<noteq> 0 \<and> y <s ARGB_MAX_Y then (x, y) # VLine_run x (y + 1) (w - 1) else [])"
  by pat_completeness auto
termination
  by (relation "measure (\<lambda>(x, y, w). unat w)") (auto simp add: unat_minus_one unat_gt_0)

declare VLine_run.simps [simp del]

definition VLine :: "POINT \<Rightarrow> POINT \<Rightarrow> byte \<Rightarrow> calls" where
  "VLine x y w =
     (if 0 \<le>s x \<and> x <s ARGB_MAX_X then (let (y', w') = clip_neg y w in VLine_run x y' w')
      else [])"

text \<open>The width and height arguments are \<^verbatim>\<open>int\<close> expressions passed as \<^verbatim>\<open>byte\<close>.\<close>

definition DrawRect :: "POINT \<Rightarrow> POINT \<Rightarrow> POINT \<Rightarrow> POINT \<Rightarrow> calls" where
  "DrawRect x1 y1 x2 y2 =
     HLine x1 y1 (ucast (x2 - x1 + 1)) @
     HLine x1 y2 (ucast (x2 - x1 + 1)) @
     (if y1 <s y2 then
        VLine x1 (y1 + 1) (ucast (y2 - y1 - 1)) @
        VLine x2 (y1 + 1) (ucast (y2 - y1 - 1))
      else [])"

text \<open>
  The unrolled inner loop of \<^verbatim>\<open>FillRect\<close>; it returns its calls together with the
  \<^verbatim>\<open>tx\<close> and \<^verbatim>\<open>tw\<close> it leaves for the loop that draws the remaining pixels.
\<close>

function FillRect_quads :: "POINT \<Rightarrow> POINT \<Rightarrow> byte \<Rightarrow> calls \<times> POINT \<times> byte" where
  "FillRect_quads tx y tw =
     (if 4 \<le> tw \<and> tx <s ARGB_MAX_X - 3 then
        (let (cs, r) = FillRect_quads (tx + 4) y (tw - 4)
         in ([(tx, y), (tx + 1, y), (tx + 2, y), (tx + 3, y)] @ cs, r))
      else ([], tx, tw))"
  by pat_completeness auto
termination
  by (relation "measure (\<lambda>(tx, y, tw). unat tw)") (auto simp add: unat_sub word_le_nat_alt)

declare FillRect_quads.simps [simp del]

definition FillRect_row :: "POINT \<Rightarrow> POINT \<Rightarrow> byte \<Rightarrow> calls" where
  "FillRect_row x y w = (let (cs, tx, tw) = FillRect_quads x y w in cs @ HLine_run tx y tw)"

function FillRect_rows :: "POINT \<Rightarrow> byte \<Rightarrow> POINT \<Rightarrow> byte \<Rightarrow> calls" where
  "FillRect_rows x w y h =
     (if h \<noteq> 0 \<and> y <s ARGB_MAX_Y then FillRect_row x y w @ FillRect_rows x w (y + 1) (h - 1)
      else [])"
  by pat_completeness auto
termination
  by (relation "measure (\<lambda>(x, w, y, h). unat h)") (auto simp add: unat_minus_one unat_gt_0)

declare FillRect_rows.simps [simp del]

definition FillRect :: "POINT \<Rightarrow> POINT \<Rightarrow> byte \<Rightarrow> byte \<Rightarrow> calls" where
  "FillRect x y w h =
     (let (x', w') = clip_neg x w; (y', h') = clip_neg y h in FillRect_rows x' w' y' h')"

text \<open>
  The circle loops keep \<^verbatim>\<open>x\<close>, \<^verbatim>\<open>y\<close> and \<^verbatim>\<open>err\<close> in \<^verbatim>\<open>char\<close> variables: every
  assignment keeps the low eight bits of an \<^verbatim>\<open>int\<close> result, which is arithmetic on
  8-bit words, and every comparison reads them signed. The test \<^verbatim>\<open>-x == y\<close> is made on
  the promoted values. \<open>circle_step\<close> is the part of the loop body after the drawing.
\<close>

definition circle_step :: "schar \<times> schar \<times> schar \<Rightarrow> schar \<times> schar \<times> schar" where
  "circle_step = (\<lambda>(x, y, err).
     (let e2 = err;
          (y, err, e2) =
            (if e2 \<le>s y then
               (let y' = y + 1; err' = err + (y' * 2 + 1)
                in (y', err', if - sint x = sint y' \<and> e2 \<le>s x then 0 else e2))
             else (y, err, e2));
          (x, err) = (if x <s e2 then (let x' = x + 1 in (x', err + (x' * 2 + 1))) else (x, err))
      in (x, y, err)))"

text \<open>
  Whether the circle and line loops end for every argument is not obvious once the 8-bit
  variables wrap around, so they take a bound on the number of rounds and return the calls
  made within it.
\<close>

fun DrawCircle_loop :: "nat \<Rightarrow> POINT \<Rightarrow> POINT \<Rightarrow> schar \<times> schar \<times> schar \<Rightarrow> calls" where
  "DrawCircle_loop 0 poX poY s = []"
| "DrawCircle_loop (Suc n) poX poY (x, y, err) =
     [(poX - scast x, poY + scast y),
      (poX + scast x, poY + scast y),
      (poX + scast x, poY - scast y),
      (poX - scast x, poY - scast y)] @
     (let s' = circle_step (x, y, err)
      in if fst s' \<le>s 0 then DrawCircle_loop n poX poY s' else [])"

definition DrawCircle :: "nat \<Rightarrow> POINT \<Rightarrow> POINT \<Rightarrow> byte \<Rightarrow> calls" where
  "DrawCircle fuel poX poY r = DrawCircle_loop fuel poX poY (- r, 0, 2 - 2 * r)"

fun FillCircle_loop :: "nat \<Rightarrow> POINT \<Rightarrow> POINT \<Rightarrow> schar \<times> schar \<times> schar \<Rightarrow> calls" where
  "FillCircle_loop 0 poX poY s = []"
| "FillCircle_loop (Suc n) poX poY (x, y, err) =
     VLine (poX - scast x) (poY - scast y) (2 * y) @
     VLine (poX + scast x) (poY - scast y) (2 * y) @
     (let s' = circle_step (x, y, err)
      in if fst s' \<le>s 0 then FillCircle_loop n poX poY s' else [])"

definition FillCircle :: "nat \<Rightarrow> POINT \<Rightarrow> POINT \<Rightarrow> byte \<Rightarrow> calls" where
  "FillCircle fuel poX poY r = FillCircle_loop fuel poX poY (- r, 0, 2 - 2 * r)"

definition abs_int :: "POINT \<Rightarrow> POINT" where
  "abs_int v = (if v <s 0 then - v else v)"

fun DrawLine_loop ::
  "nat \<Rightarrow> POINT \<Rightarrow> POINT \<Rightarrow> schar \<Rightarrow> schar \<Rightarrow> schar \<Rightarrow> schar \<Rightarrow> POINT \<Rightarrow> POINT \<Rightarrow> schar \<Rightarrow> calls" where
  "DrawLine_loop 0 x1 y1 dx sx dy sy x0 y0 err = []"
| "DrawLine_loop (Suc n) x1 y1 dx sx dy sy x0 y0 err =
     (if in_range x0 y0 then [(x0, y0)] else []) @
     (let e2 = 2 * err in
      if dy \<le>s e2 \<and> x0 = x1 then []
      else
        (let (err, x0) = (if dy \<le>s e2 then (err + dy, x0 + scast sx) else (err, x0)) in
         if e2 \<le>s dx \<and> y0 = y1 then []
         else
           (let (err, y0) = (if e2 \<le>s dx then (err + dx, y0 + scast sy) else (err, y0))
            in DrawLine_loop n x1 y1 dx sx dy sy x0 y0 err)))"

definition DrawLine :: "nat \<Rightarrow> POINT \<Rightarrow> POINT \<Rightarrow> POINT \<Rightarrow> POINT \<Rightarrow> calls" where
  "DrawLine fuel x0 y0 x1 y1 =
     (let dx = ucast (abs_int (x1 - x0)); sx = (if x0 <s x1 then 1 else - 1);
          dy = ucast (- abs_int (y1 - y0)); sy = (if y0 <s y1 then 1 else - 1);
          err = dx + dy
      in DrawLine_loop fuel x1 y1 dx sx dy sy x0 y0 err)"

text \<open>
  The numeric font has 13 glyphs of 3 columns. \<^verbatim>\<open>DrawDigit\<close> does not check its digit;
  for a digit past the table it reads whatever follows the table in program memory, which
  is the parameter \<open>flash\<close>, indexed by the offset from the start of the table.
\<close>

definition numberFont :: "byte list list" where
  "numberFont =
     [[0x1F, 0x11, 0x1F],
      [0x00, 0x00, 0x1F],
      [0x1D, 0x15, 0x17],
      [0x15, 0x15, 0x1F],
      [0x07, 0x04, 0x1F],
      [0x17, 0x15, 0x1D],
      [0x1F, 0x15, 0x1D],
      [0x01, 0x01, 0x1F],
      [0x1F, 0x15, 0x1F],
      [0x17, 0x15, 0x1F],
      [0x0A, 0x00, 0x00],
      [0x1F, 0x04, 0x1F],
      [0x1F, 0x06, 0x1F]]"

definition numberFont_byte :: "(nat \<Rightarrow> byte) \<Rightarrow> byte \<Rightarrow> nat \<Rightarrow> byte" where
  "numberFont_byte flash digit i =
     (if unat digit < length numberFont then numberFont ! unat digit ! i
      else flash (3 * unat digit + i))"

text \<open>\<^verbatim>\<open>cdata & (1 << y)\<close>, both operands promoted to \<^verbatim>\<open>int\<close>.\<close>

definition bit_set :: "byte \<Rightarrow> nat \<Rightarrow> bool" where
  "bit_set cdata y = ((ucast cdata :: 16 word) AND push_bit y 1 \<noteq> 0)"

definition DrawDigit_col :: "byte \<Rightarrow> POINT \<Rightarrow> POINT \<Rightarrow> calls" where
  "DrawDigit_col cdata plot_x py =
     concat (map (\<lambda>y. let plot_y = py + of_nat y in
                       if 0 \<le>s plot_y \<and> plot_y <s ARGB_MAX_Y then
                         (if bit_set cdata y then [(plot_x, plot_y)] else [])
                       else [])
               [0..<8])"

definition DrawDigit :: "(nat \<Rightarrow> byte) \<Rightarrow> byte \<Rightarrow> POINT \<Rightarrow> POINT \<Rightarrow> calls" where
  "DrawDigit flash digit px py =
     concat (map (\<lambda>i. let plot_x = px + of_nat i in
                       if 0 \<le>s plot_x \<and> plot_x <s ARGB_MAX_X then
                         DrawDigit_col (numberFont_byte flash digit i) plot_x py
                       else [])
               [0..<3])"

definition BlendDigits ::
  "(nat \<Rightarrow> byte) \<Rightarrow> byte \<Rightarrow> byte \<Rightarrow> byte \<Rightarrow> POINT \<Rightarrow> POINT \<Rightarrow> calls" where
  "BlendDigits flash digit_1 digit_2 blend px py =
     (let blend = (if digit_1 = digit_2 then 0 else blend);
          shift = blend div 32
      in (if digit_1 \<noteq> 255 then DrawDigit flash digit_1 px (py - ucast shift) else []) @
         (if blend \<noteq> 0 \<and> digit_2 \<noteq> 255 then DrawDigit flash digit_2 px (py - ucast shift + 7)
          else []))"

text \<open>
  The glyph table \<^verbatim>\<open>simpleFont\<close> is declared \<^verbatim>\<open>extern\<close> and defined in a file that is
  not part of the sources at hand, so it is a parameter: \<open>simpleFont g i\<close> is column \<open>i\<close>
  of glyph \<open>g\<close>. \<^verbatim>\<open>DrawChar\<close> returns the width together with its calls; the loop runs
  \<open>i\<close> from 7 down to 0.
\<close>

definition DrawChar_col ::
  "byte \<Rightarrow> nat \<Rightarrow> POINT \<Rightarrow> POINT \<Rightarrow> byte \<times> calls \<Rightarrow> byte \<times> calls" where
  "DrawChar_col col i px py = (\<lambda>(width, cs).
     if col \<noteq> 0 then
       (let width = (if width = 0 then of_nat i else width);
            plot_x = px + of_nat i
        in (width,
            cs @ (if 0 \<le>s plot_x \<and> plot_x <s ARGB_MAX_X then
                    concat (map (\<lambda>f. if bit_set col f then [(px + of_nat i, py + of_nat f)] else [])
                              [0..<8])
                  else [])))
     else (width, cs))"

primrec DrawChar_loop ::
  "(nat \<Rightarrow> byte) \<Rightarrow> POINT \<Rightarrow> POINT \<Rightarrow> nat \<Rightarrow> byte \<times> calls \<Rightarrow> byte \<times> calls" where
  "DrawChar_loop glyph px py 0 s = s"
| "DrawChar_loop glyph px py (Suc i) s =
     DrawChar_loop glyph px py i (DrawChar_col (glyph i) i px py s)"

definition DrawChar ::
  "(nat \<Rightarrow> nat \<Rightarrow> byte) \<Rightarrow> byte \<Rightarrow> POINT \<Rightarrow> POINT \<Rightarrow> byte \<times> calls" where
  "DrawChar simpleFont ascii px py =
     (let ascii = (if ascii < 0x20 \<or> ascii > 0x7e then 0x2D else ascii)
      in DrawChar_loop (simpleFont (unat ascii - 0x20)) px py 8 (0, []))"

text \<open>
  A glyph table for examples: an \<open>H\<close> (code 0x48) of four columns and a hyphen
  (code 0x2D) of three; every other glyph is blank.
\<close>

definition example_font :: "nat \<Rightarrow> nat \<Rightarrow> byte" where
  "example_font g i =
     (if g = 0x28 \<and> i < 4 then [0x7F, 0x08, 0x08, 0x7F] ! i
      else if g = 0x0D \<and> i < 3 then 0x08
      else 0)"

text \<open>Program memory past the numeric font, for examples.\<close>

definition blank_flash :: "nat \<Rightarrow> byte" where
  "blank_flash a = 0"

text \<open>
  The index of the leftmost set column of a glyph, 0 when the glyph has no set column, as
  the specification words the result of \<^verbatim>\<open>DrawChar\<close>.
\<close>

definition leftmost_set_column :: "(nat \<Rightarrow> byte) \<Rightarrow> nat" where
  "leftmost_set_column glyph =
     (case filter (\<lambda>i. glyph i \<noteq> 0) [0..<8] of [] \<Rightarrow> 0 | i # _ \<Rightarrow> i)"

text \<open>Calls whose column is on the buffer, whatever their row.\<close>

definition x_in_range :: "calls \<Rightarrow> bool" where
  "x_in_range cs = list_all (\<lambda>(x, y). 0 \<le>s x \<and> x <s ARGB_MAX_X) cs"

section \<open>Auxiliary notions used in the proofs\<close>

text \<open>The state of the clock after \<open>n\<close> interrupts, in closed form.\<close>

definition clock_after :: "nat \<Rightarrow> clock" where
  "clock_after n = \<lparr>line = of_nat (n mod 8), ARGB_user_frame = (if n < 8 then 0 else 1),
      ARGB_clock_ms = of_nat (8 * (n div 8 mod 125)), ARGB_clock_tod = of_nat (n div 8 div 125 mod 86400)\<rparr>"

text \<open>
  The state of \<^verbatim>\<open>Fade\<close> when its pointer has reached offset \<open>p\<close>: the bytes below
  \<open>p\<close> are scaled, the rest are still those of the buffer \<open>fb0\<close> it started from.
\<close>

definition faded :: "byte \<Rightarrow> framebuffer \<Rightarrow> nat \<Rightarrow> framebuffer \<times> nat" where
  "faded alpha fb0 p = (map (scale alpha) (take p fb0) @ drop p fb0, p)"

text \<open>
  The state of an inner loop of \<^verbatim>\<open>ScrollLeft\<close> that walks downwards from offset
  \<open>e - 1\<close> and has written \<open>j\<close> bytes: the bytes at offsets \<open>e - j\<close> to \<open>e - 1\<close> hold
  \<open>g\<close> of their offset, the others are unchanged. \<open>lines_state\<close> is the state of the
  outer loop when \<open>r\<close> rows are done, \<open>k\<close> being the shift in bytes.
\<close>

definition seg_state :: "(nat \<Rightarrow> byte) \<Rightarrow> framebuffer \<Rightarrow> nat \<Rightarrow> nat \<Rightarrow> framebuffer \<times> int" where
  "seg_state g fb0 e j =
     (map (\<lambda>i. if e \<le> i + j \<and> i < e then g i else fb0 ! i) [0..<length fb0], int e - 1 - int j)"

definition lines_state :: "framebuffer \<Rightarrow> nat \<Rightarrow> nat \<Rightarrow> framebuffer \<times> int" where
  "lines_state fb0 k r =
     (map (\<lambda>i. if i < 24 * r then (if i mod 24 < k then 0 else fb0 ! (i - k)) else fb0 ! i)
        [0..<length fb0],
      int (24 * r + 24) - 1)"

text \<open>
  The state of \<^verbatim>\<open>Fill\<close> when \<open>n\<close> pixels are written, \<open>r\<close>, \<open>g\<close> and \<open>b\<close> being the
  local variables of that name.
\<close>

definition filled :: "byte \<Rightarrow> byte \<Rightarrow> byte \<Rightarrow> framebuffer \<Rightarrow> nat \<Rightarrow> framebuffer \<times> nat" where
  "filled r g b fb0 n = (concat (replicate n [r, g, b]) @ drop (3 * n) fb0, 3 * n)"

section \<open>Bytes, words and offsets\<close>

lemma small_point_cases:
  fixes x :: POINT
  assumes "0 \<le>s x" "x <s 8"
  shows "x \<in> {0, 1, 2, 3, 4, 5, 6, 7}"
proof -
  have "0 \<le> sint x" "sint x < 8"
    using assms by (simp_all add: word_sle_eq word_sless_alt)
  then have "sint x \<in> {0, 1, 2, 3, 4, 5, 6, 7}" by auto
  then have "word_of_int (sint x) \<in> {0, 1, 2, 3, 4, 5, 6, 7 :: POINT}"
    by (elim insertE emptyE) (simp_all only: word_of_int_0 word_of_int_1 word_of_int_numeral insert_iff simp_thms)
  then show ?thesis by simp
qed

lemma unat_byte_le: "unat (a :: byte) \<le> 255"
  using unsigned_less[where 'a=nat and w=a] by simp

lemma NOT_byte: "NOT a = 255 - (a :: byte)"
  by (simp add: not_eq_complement)

lemma byte_le_255: "(a :: byte) \<le> 255"
  using unat_byte_le[of a] by (simp add: word_le_nat_alt)

lemma unat_NOT_byte: "unat (NOT a :: byte) = 255 - unat a"
  by (simp add: NOT_byte unat_sub byte_le_255)

lemma NOT_byte_0: "(NOT a = 0) = (a = (255 :: byte))"
  by (simp add: NOT_byte)  


lemma unat_ucast_byte_uint: "unat (ucast (v :: byte) :: uint) = unat v"
  using unat_byte_le[of v] by (simp add: unsigned_ucast_eq take_bit_nat_eq_self)

lemma mix_formula:
  "unat (mix (ucast (NOT a)) bg (ucast (a :: byte)) fg) =
     ((255 - unat a) * unat bg + unat a * unat fg) div 256"
proof -
  have a: "unat a \<le> 255" "unat bg \<le> 255" "unat fg \<le> 255"
    by (simp_all only: unat_byte_le)
  have "(255 - unat a) * unat bg \<le> (255 - unat a) * 255" using a(2) by (rule mult_le_mono2)
  moreover have "unat a * unat fg \<le> unat a * 255" using a(3) by (rule mult_le_mono2)
  ultimately have s: "(255 - unat a) * unat bg + unat a * unat fg \<le> 65025" using a(1) by linarith
  have u: "unat ((ucast (NOT a) :: uint) * ucast bg + ucast a * ucast fg)
      = (255 - unat a) * unat bg + unat a * unat fg"
  proof -
    have 1: "(255 - unat a) * unat bg < 65536" "unat a * unat fg < 65536" using s by simp_all
    show ?thesis
      using s 1 by (simp add: unat_word_ariths unat_ucast_byte_uint unat_NOT_byte)
  qed
  have d: "((255 - unat a) * unat bg + unat a * unat fg) div 256 < 256" using s by simp
  define W where "W = (ucast (NOT a) :: uint) * ucast bg + ucast a * ucast fg"
  have "unat (ucast (drop_bit 8 W) :: byte) = take_bit 8 (drop_bit 8 (unat W))"
    by (simp only: unsigned_ucast_eq unat_drop_bit_eq len_bit0 len_num1) simp
  also have "\<dots> = unat W div 256" 
    using d u by (simp add: W_def drop_bit_eq_div take_bit_nat_eq_self)
  finally show ?thesis
    unfolding mix_def W_def[symmetric] by (simp only: u[folded W_def])
qed

lemma small_point_unat:
  fixes x :: POINT
  assumes "0 \<le>s x" "x <s 8"
  shows "unat x < 8"
  using small_point_cases[OF assms] by auto

lemma pb_offset:
  assumes "in_range x y"
  shows "2 + sint (3 * ((8 - 1 - x) + y * 8)) = int (pixel_offset (unat x) (unat y) + 2)"
proof -
  have x: "x \<in> {0, 1, 2, 3, 4, 5, 6, 7}"
    using assms small_point_cases[of x] by (simp add: in_range_def)
  have y: "y \<in> {0, 1, 2, 3, 4, 5, 6, 7}"
    using assms small_point_cases[of y] by (simp add: in_range_def)
  show ?thesis using x y by (auto simp add: pixel_offset_def)
qed

lemma pixel_offset_bound: "x < 8 \<Longrightarrow> y < 8 \<Longrightarrow> pixel_offset x y + 2 < 192"
  by (simp add: pixel_offset_def)

lemma peek_in: "p < length fb \<Longrightarrow> peek fb (int p) = Some (fb ! p)"
  by (simp add: peek_def)

lemma poke_in: "p < length fb \<Longrightarrow> poke fb (int p) v = Some (fb[p := v])"
  by (simp add: poke_def)

lemma blend_at_in: "p < length fb \<Longrightarrow>
   blend_at a1 a c fb (int p) = Some (fb[p := mix (ucast a1) (fb ! p) (ucast a) c])"
  by (simp add: blend_at_def peek_in poke_in)

lemma SetPixel_blend:
  assumes "p + 2 < length fb" "color_a color \<noteq> 255"
    and "2 + sint (3 * ((8 - 1 - x) + y * 8)) = int (p + 2)"
  shows "SetPixel fb x y color =
    Some (fb[p + 2 := mix (ucast (NOT (color_a color))) (fb ! (p + 2)) (ucast (color_a color)) (color_b color),
             p + 1 := mix (ucast (NOT (color_a color))) (fb ! (p + 1)) (ucast (color_a color)) (color_g color),
             p := mix (ucast (NOT (color_a color))) (fb ! p) (ucast (color_a color)) (color_r color)])"
proof -
  have i: "int (p + 2) - 1 = int (p + 1)" "int (p + 2) - 2 = int p" by simp_all
  have n: "NOT (color_a color) \<noteq> 0" using assms(2) by (simp add: NOT_byte_0)
  have l: "p + 2 < length fb" "p + 1 < length (fb[p + 2 := u])" "p < length (fb[p + 2 := u, p + 1 := v])" for u v
    using assms(1) by simp_all
  have d: "fb[p + 2 := u] ! (p + 1) = fb ! (p + 1)" "fb[p + 2 := u, p + 1 := v] ! p = fb ! p" for u v
    by simp_all
  show ?thesis
    unfolding SetPixel_def Let_def assms(3) i
    by (simp only: n not_False_eq_True if_True blend_at_in[OF l(1)] blend_at_in[OF l(2)] blend_at_in[OF l(3)]
          Option.bind.bind_lunit d)
qed

lemma SetPixel_opaque:
  assumes "p + 2 < length fb" "color_a color = 255"
    and "2 + sint (3 * ((8 - 1 - x) + y * 8)) = int (p + 2)"
  shows "SetPixel fb x y color =
    Some (fb[p + 2 := color_b color, p + 1 := color_g color, p := color_r color])"
proof -
  have i: "int (p + 2) - 1 = int (p + 1)" "int (p + 2) - 2 = int p" by simp_all
  have n: "\<not> NOT (color_a color) \<noteq> 0" using assms(2) by (simp add: NOT_byte_0)
  have l: "p + 2 < length fb" "p + 1 < length (fb[p + 2 := u])" "p < length (fb[p + 2 := u, p + 1 := v])" for u v
    using assms(1) by simp_all
  show ?thesis
    unfolding SetPixel_def Let_def assms(3) i
    by (simp only: n not_False_eq_True not_True_eq_False if_False poke_in[OF l(1)] poke_in[OF l(2)] poke_in[OF l(3)]
          Option.bind.bind_lunit)
qed

lemma sint_add_small:
  fixes x :: POINT
  assumes "- 1000 \<le> sint x" "sint x < 1000" "- 1000 \<le> k" "k < 1000"
  shows "sint (x + word_of_int k) = sint x + k"
proof -
  have "sint (word_of_int k :: POINT) = signed_take_bit 15 k"
    by (simp add: sint_sbintrunc')
  also have "\<dots> = k"
    using assms by (intro signed_take_bit_int_eq_self) simp_all
  finally have "sint (x + word_of_int k) = signed_take_bit 15 (sint x + k)"
    by (simp add: sint_word_ariths)
  also have "\<dots> = sint x + k"
    using assms by (intro signed_take_bit_int_eq_self) simp_all
  finally show ?thesis .
qed

lemma sint_succ:
  fixes x :: POINT
  assumes "- 1000 \<le> sint x" "sint x < 1000"
  shows "sint (x + 1) = sint x + 1"
  using sint_add_small[OF assms, of 1] by simp

lemma in_range_sint:
  "in_range x y = (0 \<le> sint x \<and> sint x < 8 \<and> 0 \<le> sint y \<and> sint y < 8)"
  by (simp add: in_range_def word_sle_eq word_sless_alt)

lemma sint_of_nat_small: "n < 1000 \<Longrightarrow> sint (of_nat n :: POINT) = int n"
proof -
  assume n: "n < 1000"
  have "sint (of_nat n :: POINT) = signed_take_bit 15 (int n)"
    using sint_sbintrunc'[where 'a=16, of "int n"] by simp
  also have "\<dots> = int n" using n by (intro signed_take_bit_int_eq_self) simp_all
  finally show ?thesis .
qed

section \<open>SetPixel\<close>

text \<open>
  C1, as amended. For every in-range coordinate and every colour with alpha byte \<open>a\<close>,
  \<^verbatim>\<open>SetPixel\<close> stays inside the 192-byte buffer and changes the channels of the addressed
  pixel as follows: when \<open>a = 255\<close> they become exactly the colour's R, G and B (the direct
  overwrite); otherwise each becomes \<open>((255 - a) * bg + a * fg) div 256\<close>, where \<open>bg\<close> is
  the channel's prior value and \<open>fg\<close> the colour's channel. So 255 is the opaque alpha and
  there is no alpha at which the write is skipped.
\<close>

theorem SetPixel_channels:
  assumes "length fb = 192" "in_range x y"
  shows "\<exists>fb'. SetPixel fb x y color = Some fb' \<and> length fb' = 192 \<and>
    (let a = unat (color_a color);
         (r, g, b) = get_pixel fb (unat x) (unat y);
         (r', g', b') = get_pixel fb' (unat x) (unat y)
     in if a = 255 then (r', g', b') = (color_r color, color_g color, color_b color)
        else unat r' = ((255 - a) * unat r + a * unat (color_r color)) div 256 \<and>
             unat g' = ((255 - a) * unat g + a * unat (color_g color)) div 256 \<and>
             unat b' = ((255 - a) * unat b + a * unat (color_b color)) div 256)"
proof -
  define p where "p = pixel_offset (unat x) (unat y)"
  have ux: "unat x < 8" and uy: "unat y < 8"
    using assms(2) by (simp_all add: in_range_def small_point_unat)
  have p: "p + 2 < length fb" using pixel_offset_bound[OF ux uy] assms(1) by (simp add: p_def)
  have pb: "2 + sint (3 * ((8 - 1 - x) + y * 8)) = int (p + 2)"
    unfolding p_def by (rule pb_offset[OF assms(2)])
  have a255: "(unat (color_a color) = 255) = (color_a color = 255)"
    by (simp add: word_unat_eq_iff)
  show ?thesis
  proof (cases "color_a color = 255")
    case True
    show ?thesis
      unfolding SetPixel_opaque[OF p True pb] get_pixel_def p_def[symmetric] a255
      using True p assms(1) by (simp add: Let_def a255)
  next
    case False
    show ?thesis
      unfolding SetPixel_blend[OF p False pb] get_pixel_def p_def[symmetric] a255
      using False p assms(1) by (simp add: Let_def mix_formula a255)
  qed
qed

theorem SetPixel_channels_witness:
  "length (replicate 192 (9 :: byte)) = 192 \<and> in_range 3 2 \<and>
   (\<exists>fb'. SetPixel (replicate 192 9) 3 2 0x80102030 = Some fb' \<and> length fb' = 192 \<and>
      unat (fst (get_pixel fb' 3 2)) = (127 * 9 + 128 * 16) div 256)"
proof -
  have h: "length (replicate 192 (9 :: byte)) = 192" "in_range 3 2"
    by (simp_all add: in_range_def word_sle_eq word_sless_alt)
  have c: "color_a 0x80102030 = 128" "color_r 0x80102030 = 16"
    by (simp_all add: color_a_def color_r_def)
  have p: "get_pixel (replicate 192 (9 :: byte)) 3 2 = (9, 9, 9)"
    by (simp add: get_pixel_def pixel_offset_def)
  from SetPixel_channels[OF h, of "0x80102030"] obtain fb' where
    s: "SetPixel (replicate 192 9) 3 2 0x80102030 = Some fb'" and l: "length fb' = 192"
    and v: "(let a = unat (color_a 0x80102030);
         (r, g, b) = get_pixel (replicate 192 9) (unat (3 :: POINT)) (unat (2 :: POINT));
         (r', g', b') = get_pixel fb' (unat (3 :: POINT)) (unat (2 :: POINT))
     in if a = 255 then (r', g', b') = (color_r 0x80102030, color_g 0x80102030, color_b 0x80102030)
        else unat r' = ((255 - a) * unat r + a * unat (color_r 0x80102030)) div 256 \<and>
             unat g' = ((255 - a) * unat g + a * unat (color_g 0x80102030)) div 256 \<and>
             unat b' = ((255 - a) * unat b + a * unat (color_b 0x80102030)) div 256)"
    by blast
  have "unat (fst (get_pixel fb' 3 2)) = (127 * 9 + 128 * 16) div 256"
    using v by (cases "get_pixel fb' 3 2") (simp add: c p)
  with s l h show ?thesis by blast
qed

text \<open>
  C1 as stated fails. At alpha 255 the pixel is overwritten, not left unchanged; at alpha 0
  the pixel does not take the colour's channels but keeps 255/256 of its own.
\<close>

theorem SetPixel_alpha_counterexample:
  "pixel_after (Some (replicate 192 0)) 0 0 = Some (0, 0, 0) \<and>
   pixel_after (SetPixel (replicate 192 0) 0 0 0xFF102030) 0 0 = Some (0x10, 0x20, 0x30) \<and>
   pixel_after (SetPixel (replicate 192 9) 0 0 0x00102030) 0 0 = Some (8, 8, 8)"
  by code_simp

section \<open>Clipping in the shape operations\<close>

lemma all_in_range_simps [simp]:
  "all_in_range []"
  "all_in_range ((x, y) # cs) = (in_range x y \<and> all_in_range cs)"
  "all_in_range (cs @ ds) = (all_in_range cs \<and> all_in_range ds)"
  by (simp_all add: all_in_range_def)

lemma clip_neg_post: "clip_neg x w = (x', w') \<Longrightarrow> 0 \<le> sint x' \<or> w' = 0"
proof (induction x w rule: clip_neg.induct)
  case (1 x w)
  show ?case
  proof (cases "x <s 0 \<and> w \<noteq> 0")
    case True
    have "clip_neg (x + 1) (w - 1) = (x', w')"
      using "1.prems" True by (subst (asm) clip_neg.simps) simp
    then show ?thesis using True by (rule "1.IH"[rotated])
  next
    case False
    have "x' = x \<and> w' = w"
      using "1.prems" False by (subst (asm) clip_neg.simps) auto
    then show ?thesis using False by (auto simp add: word_sless_alt)
  qed
qed

lemma HLine_run_safe:
  "0 \<le> sint x \<or> w = 0 \<Longrightarrow> 0 \<le> sint y \<Longrightarrow> sint y < 8 \<Longrightarrow> all_in_range (HLine_run x y w)"
proof (induction x y w rule: HLine_run.induct)
  case (1 x y w)
  show ?case
  proof (cases "w \<noteq> 0 \<and> x <s 8")
    case True
    then have x: "0 \<le> sint x" "sint x < 8" using "1.prems"(1) by (simp_all add: word_sless_alt)
    have "sint (x + 1) = sint x + 1" using x by (intro sint_succ) simp_all
    then have "all_in_range (HLine_run (x + 1) y (w - 1))"
      using True x "1.prems" by (intro "1.IH") simp_all
    then show ?thesis using True x "1.prems" by (subst HLine_run.simps) (simp add: in_range_sint)
  next
    case False
    then show ?thesis by (subst HLine_run.simps) auto
  qed
qed

lemma VLine_run_safe:
  "0 \<le> sint y \<or> w = 0 \<Longrightarrow> 0 \<le> sint x \<Longrightarrow> sint x < 8 \<Longrightarrow> all_in_range (VLine_run x y w)"
proof (induction x y w rule: VLine_run.induct)
  case (1 x y w)
  show ?case
  proof (cases "w \<noteq> 0 \<and> y <s 8")
    case True
    then have y: "0 \<le> sint y" "sint y < 8" using "1.prems"(1) by (simp_all add: word_sless_alt)
    have "sint (y + 1) = sint y + 1" using y by (intro sint_succ) simp_all
    then have "all_in_range (VLine_run x (y + 1) (w - 1))"
      using True y "1.prems" by (intro "1.IH") simp_all
    then show ?thesis using True y "1.prems" by (subst VLine_run.simps) (simp add: in_range_sint)
  next
    case False
    then show ?thesis by (subst VLine_run.simps) auto
  qed
qed

lemma HLine_safe: "all_in_range (HLine x y w)"
proof (cases "0 \<le>s y \<and> y <s 8")
  case True
  obtain x' w' where c: "clip_neg x w = (x', w')" by (cases "clip_neg x w")
  have "all_in_range (HLine_run x' y w')"
    using clip_neg_post[OF c] True by (intro HLine_run_safe) (simp_all add: word_sle_eq word_sless_alt)
  then show ?thesis using True by (simp add: HLine_def c)
next
  case False
  then show ?thesis by (auto simp add: HLine_def)
qed

lemma VLine_safe: "all_in_range (VLine x y w)"
proof (cases "0 \<le>s x \<and> x <s 8")
  case True
  obtain y' w' where c: "clip_neg y w = (y', w')" by (cases "clip_neg y w")
  have "all_in_range (VLine_run x y' w')"
    using clip_neg_post[OF c] True by (intro VLine_run_safe) (simp_all add: word_sle_eq word_sless_alt)
  then show ?thesis using True by (simp add: VLine_def c)
next
  case False
  then show ?thesis by (auto simp add: VLine_def)
qed

lemma DrawRect_safe: "all_in_range (DrawRect x1 y1 x2 y2)"
  by (simp add: DrawRect_def HLine_safe VLine_safe)

lemma FillRect_quads_safe:
  "0 \<le> sint tx \<or> tw = 0 \<Longrightarrow> 0 \<le> sint y \<Longrightarrow> sint y < 8 \<Longrightarrow>
   FillRect_quads tx y tw = (cs, tx', tw') \<Longrightarrow>
   all_in_range cs \<and> (0 \<le> sint tx' \<or> tw' = 0)"
proof (induction tx y tw arbitrary: cs tx' tw' rule: FillRect_quads.induct)
  case (1 tx y tw)
  show ?case
  proof (cases "4 \<le> tw \<and> tx <s 8 - 3")
    case True
    then have tw: "tw \<noteq> 0" by auto
    then have x: "0 \<le> sint tx" "sint tx < 5"
      using "1.prems"(1) True by (simp_all add: word_sless_alt)
    have s: "sint (tx + 1) = sint tx + 1" "sint (tx + 2) = sint tx + 2"
      "sint (tx + 3) = sint tx + 3" "sint (tx + 4) = sint tx + 4"
      using x sint_add_small[of tx 1] sint_add_small[of tx 2] sint_add_small[of tx 3]
        sint_add_small[of tx 4] by simp_all
    obtain cs1 r1 t1 where q: "FillRect_quads (tx + 4) y (tw - 4) = (cs1, r1, t1)"
      by (cases "FillRect_quads (tx + 4) y (tw - 4)") auto
    have i: "all_in_range cs1 \<and> (0 \<le> sint r1 \<or> t1 = 0)"
      using True x s "1.prems"(2,3) q by (intro "1.IH") simp_all
    have e: "cs = [(tx, y), (tx + 1, y), (tx + 2, y), (tx + 3, y)] @ cs1 \<and> tx' = r1 \<and> tw' = t1"
      using "1.prems"(4) True q by (subst (asm) FillRect_quads.simps) simp
    show ?thesis using e i x s "1.prems"(2,3) by (simp add: in_range_sint)
  next
    case False
    have "cs = [] \<and> tx' = tx \<and> tw' = tw"
      using "1.prems"(4) False by (subst (asm) FillRect_quads.simps) auto
    then show ?thesis using "1.prems"(1) by simp
  qed
qed

lemma FillRect_row_safe:
  assumes "0 \<le> sint x \<or> w = 0" "0 \<le> sint y" "sint y < 8"
  shows "all_in_range (FillRect_row x y w)"
proof -
  obtain cs tx tw where q: "FillRect_quads x y w = (cs, tx, tw)"
    by (cases "FillRect_quads x y w") auto
  have "all_in_range cs \<and> (0 \<le> sint tx \<or> tw = 0)"
    using assms q by (rule FillRect_quads_safe)
  then show ?thesis using assms(2,3) by (simp add: FillRect_row_def q HLine_run_safe)
qed

lemma FillRect_rows_safe:
  "0 \<le> sint x \<or> w = 0 \<Longrightarrow> 0 \<le> sint y \<or> h = 0 \<Longrightarrow> all_in_range (FillRect_rows x w y h)"
proof (induction x w y h rule: FillRect_rows.induct)
  case (1 x w y h)
  show ?case
  proof (cases "h \<noteq> 0 \<and> y <s 8")
    case True
    then have y: "0 \<le> sint y" "sint y < 8" using "1.prems"(2) by (simp_all add: word_sless_alt)
    have "sint (y + 1) = sint y + 1" using y by (intro sint_succ) simp_all
    then have "all_in_range (FillRect_rows x w (y + 1) (h - 1))"
      using True y "1.prems" by (intro "1.IH") simp_all
    then show ?thesis
      using True y "1.prems" by (subst FillRect_rows.simps) (simp add: FillRect_row_safe)
  next
    case False
    then show ?thesis by (subst FillRect_rows.simps) auto
  qed
qed

lemma FillRect_safe: "all_in_range (FillRect x y w h)"
proof -
  obtain x' w' where cx: "clip_neg x w = (x', w')" by (cases "clip_neg x w")
  obtain y' h' where cy: "clip_neg y h = (y', h')" by (cases "clip_neg y h")
  show ?thesis
    using clip_neg_post[OF cx] clip_neg_post[OF cy]
    by (simp add: FillRect_def cx cy FillRect_rows_safe)
qed

lemma FillCircle_loop_safe: "all_in_range (FillCircle_loop fuel poX poY s)"
proof (induction fuel arbitrary: s)
  case 0
  show ?case by simp
next
  case (Suc fuel)
  obtain x y err where s: "s = (x, y, err)" by (cases s) auto
  show ?case unfolding s by (simp add: VLine_safe Suc Let_def)
qed

lemma FillCircle_safe: "all_in_range (FillCircle fuel poX poY r)"
  by (simp add: FillCircle_def FillCircle_loop_safe)

lemma DrawLine_loop_safe: "all_in_range (DrawLine_loop fuel x1 y1 dx sx dy sy x0 y0 err)"
proof (induction fuel arbitrary: x0 y0 err)
  case 0
  show ?case by simp
next
  case (Suc fuel)
  show ?case by (simp add: Suc Let_def)
qed

lemma DrawLine_safe: "all_in_range (DrawLine fuel x0 y0 x1 y1)"
  by (simp add: DrawLine_def Let_def DrawLine_loop_safe)

lemma all_in_range_concat:
  "(\<And>x. x \<in> set xs \<Longrightarrow> all_in_range (f x)) \<Longrightarrow> all_in_range (concat (map f xs))"
  by (induction xs) simp_all

lemma DrawDigit_col_safe:
  "0 \<le>s plot_x \<Longrightarrow> plot_x <s 8 \<Longrightarrow> all_in_range (DrawDigit_col cdata plot_x py)"
  unfolding DrawDigit_col_def
  by (rule all_in_range_concat) (simp add: Let_def in_range_def)

lemma DrawDigit_safe: "all_in_range (DrawDigit flash digit px py)"
  unfolding DrawDigit_def
  by (rule all_in_range_concat) (simp add: Let_def DrawDigit_col_safe)

lemma BlendDigits_safe: "all_in_range (BlendDigits flash d1 d2 blend px py)"
  by (simp add: BlendDigits_def Let_def DrawDigit_safe)

lemma x_in_range_simps [simp]:
  "x_in_range []"
  "x_in_range ((x, y) # cs) = ((0 \<le>s x \<and> x <s 8) \<and> x_in_range cs)"
  "x_in_range (cs @ ds) = (x_in_range cs \<and> x_in_range ds)"
  by (simp_all add: x_in_range_def)

lemma x_in_range_concat:
  "(\<And>x. x \<in> set xs \<Longrightarrow> x_in_range (f x)) \<Longrightarrow> x_in_range (concat (map f xs))"
  by (induction xs) simp_all

lemma DrawChar_col_x: "x_in_range (snd s) \<Longrightarrow> x_in_range (snd (DrawChar_col col i px py s))"
proof -
  obtain w cs where s: "s = (w, cs)" by (cases s)
  have "0 \<le>s px + of_nat i \<Longrightarrow> px + of_nat i <s 8 \<Longrightarrow>
    x_in_range (concat (map (\<lambda>f. if bit_set col f then [(px + of_nat i, py + of_nat f)] else []) [0..<8]))"
    by (rule x_in_range_concat) simp
  then show "x_in_range (snd s) \<Longrightarrow> ?thesis"
    unfolding s by (simp add: DrawChar_col_def Let_def)
qed

lemma DrawChar_loop_x: "x_in_range (snd s) \<Longrightarrow> x_in_range (snd (DrawChar_loop glyph px py n s))"
  by (induction n arbitrary: s) (simp_all add: DrawChar_col_x)

lemma DrawChar_x: "x_in_range (snd (DrawChar font ascii px py))"
  by (simp add: DrawChar_def Let_def DrawChar_loop_x)

lemma DrawChar_col_y0: "all_in_range (snd s) \<Longrightarrow> all_in_range (snd (DrawChar_col col i px 0 s))"
proof -
  obtain w cs where s: "s = (w, cs)" by (cases s)
  have "0 \<le>s px + of_nat i \<Longrightarrow> px + of_nat i <s 8 \<Longrightarrow>
    all_in_range (concat (map (\<lambda>f. if bit_set col f then [(px + of_nat i, 0 + of_nat f)] else []) [0..<8]))"
    by (rule all_in_range_concat) (auto simp add: in_range_def word_sle_eq word_sless_alt sint_of_nat_small)
  then show "all_in_range (snd s) \<Longrightarrow> ?thesis"
    unfolding s by (simp add: DrawChar_col_def Let_def)
qed

lemma DrawChar_loop_y0: "all_in_range (snd s) \<Longrightarrow> all_in_range (snd (DrawChar_loop glyph px 0 n s))"
  by (induction n arbitrary: s) (simp_all add: DrawChar_col_y0)

lemma DrawChar_y0: "all_in_range (snd (DrawChar font ascii px 0))"
  by (simp add: DrawChar_def Let_def DrawChar_loop_y0)

text \<open>
  Calls that are all in range stay inside the 192-byte buffer.
\<close>

lemma SetPixel_in_range:
  assumes "length fb = 192" "in_range x y"
  shows "\<exists>fb'. SetPixel fb x y color = Some fb' \<and> length fb' = 192"
proof -
  define p where "p = pixel_offset (unat x) (unat y)"
  have ux: "unat x < 8" and uy: "unat y < 8"
    using assms(2) by (simp_all add: in_range_def small_point_unat)
  have p: "p + 2 < length fb" using pixel_offset_bound[OF ux uy] assms(1) by (simp add: p_def)
  have pb: "2 + sint (3 * ((8 - 1 - x) + y * 8)) = int (p + 2)"
    unfolding p_def by (rule pb_offset[OF assms(2)])
  show ?thesis
  proof (cases "color_a color = 255")
    case True
    show ?thesis unfolding SetPixel_opaque[OF p True pb] using assms(1) by simp
  next
    case False
    show ?thesis unfolding SetPixel_blend[OF p False pb] using assms(1) by simp
  qed
qed

lemma plot_in_range:
  "length fb = 192 \<Longrightarrow> all_in_range cs \<Longrightarrow>
   \<exists>fb'. plot fb color cs = Some fb' \<and> length fb' = 192"
proof (induction cs arbitrary: fb)
  case Nil
  then show ?case by simp
next
  case (Cons c cs)
  obtain x y where c: "c = (x, y)" by (cases c)
  have r: "in_range x y" and a: "all_in_range cs" using Cons.prems(2) by (simp_all add: c)
  obtain fb1 where s: "SetPixel fb x y color = Some fb1" and l: "length fb1 = 192"
    using SetPixel_in_range[OF Cons.prems(1) r] by blast
  show ?case using Cons.IH[OF l a] by (simp add: c s)
qed

text \<open>
  C2, as amended. \<^verbatim>\<open>HLine\<close>, \<^verbatim>\<open>VLine\<close>, \<^verbatim>\<open>DrawRect\<close>, \<^verbatim>\<open>FillRect\<close>, \<^verbatim>\<open>FillCircle\<close>,
  \<^verbatim>\<open>DrawLine\<close>, \<^verbatim>\<open>DrawDigit\<close> and \<^verbatim>\<open>BlendDigits\<close> call \<^verbatim>\<open>SetPixel\<close> only with
  \<open>0 \<le> x < 8\<close> and \<open>0 \<le> y < 8\<close>, for every argument tuple and, for the circle and the line,
  however many rounds of the loop are run. \<^verbatim>\<open>DrawChar\<close> clips columns only: the \<open>x\<close> of
  each of its calls is in range, and so is the \<open>y\<close> when the glyph is drawn at \<open>py = 0\<close>.
\<close>

theorem shapes_clip:
  "all_in_range (HLine x y w) \<and>
   all_in_range (VLine x y w) \<and>
   all_in_range (DrawRect x y xe ye) \<and>
   all_in_range (FillRect x y w h) \<and>
   all_in_range (FillCircle fuel x y r) \<and>
   all_in_range (DrawLine fuel x y xe ye) \<and>
   all_in_range (DrawDigit flash digit x y) \<and>
   all_in_range (BlendDigits flash digit digit_2 blend x y) \<and>
   x_in_range (snd (DrawChar simpleFont ascii x y)) \<and>
   all_in_range (snd (DrawChar simpleFont ascii x 0))"
  by (intro conjI HLine_safe VLine_safe DrawRect_safe FillRect_safe FillCircle_safe
        DrawLine_safe DrawDigit_safe BlendDigits_safe DrawChar_x DrawChar_y0)

theorem shapes_clip_witness:
  "FillRect (- 1) 6 3 200 = [(0, 6), (1, 6), (0, 7), (1, 7)] \<and>
   all_in_range (FillRect (- 1) 6 3 200) \<and>
   DrawLine 9 6 (- 1) 9 2 = [(7, 0)] \<and>
   all_in_range (DrawLine 9 6 (- 1) 9 2)"
proof -
  have "FillRect (- 1) 6 3 200 = [(0, 6), (1, 6), (0, 7), (1, 7)]" by code_simp
  moreover have "DrawLine 9 6 (- 1) 9 2 = [(7, 0)]" by code_simp
  moreover note shapes_clip[where x = "- 1" and y = 6 and w = 3 and h = 200]
    shapes_clip[where x = 6 and y = "- 1" and xe = 9 and ye = 2 and fuel = 9]
  ultimately show ?thesis by blast
qed

text \<open>
  C2 as stated fails. \<^verbatim>\<open>DrawCircle\<close> passes its four points to \<^verbatim>\<open>SetPixel\<close> unchecked:
  a circle of radius 1 about the origin asks for the pixel \<open>(-1, 0)\<close>, which lands on
  pixel \<open>(7, 1)\<close>, and one about \<open>(7, 7)\<close> asks for \<open>(7, 8)\<close>, which lies past the end
  of the buffer. \<^verbatim>\<open>DrawChar\<close> does not clip rows: an \<open>H\<close> drawn one row above the buffer
  asks for \<open>(0, -1)\<close>.
\<close>

theorem shapes_clip_counterexample:
  "DrawCircle 1 0 0 1 = [(1, 0), (- 1, 0), (- 1, 0), (1, 0)] \<and>
   \<not> all_in_range (DrawCircle 1 0 0 1) \<and>
   pixel_after (plot (replicate 192 0) 0xFFFFFFFF (DrawCircle 1 0 0 1)) 7 1 = Some (255, 255, 255) \<and>
   plot (replicate 192 0) 0xFFFFFFFF (DrawCircle 2 7 7 1) = None \<and>
   \<not> all_in_range (snd (DrawChar example_font 0x48 0 (- 1)))"
  by code_simp

section \<open>DrawChar\<close>

lemma DrawChar_col_width:
  "fst (DrawChar_col col i px py (w, cs)) = (if col \<noteq> 0 \<and> w = 0 then of_nat i else w)"
  by (simp add: DrawChar_col_def Let_def)

lemma of_nat_byte_0: "n \<le> 8 \<Longrightarrow> ((of_nat n :: byte) = 0) = (n = 0)"
  by (simp add: word_of_nat_eq_0_iff) presburger 

lemma unat_of_nat_byte_small: "n \<le> 8 \<Longrightarrow> unat (of_nat n :: byte) = n"
  by (simp add: unat_of_nat)

lemma DrawChar_loop_width:
  "n \<le> 8 \<Longrightarrow>
   unat (fst (DrawChar_loop glyph px py n (w, cs))) =
     (if w \<noteq> 0 then unat w else Max (insert 0 {i. i < n \<and> glyph i \<noteq> 0}))"
proof (induction n arbitrary: w cs)
  case 0
  show ?case by (simp add: unat_eq_0)
next
  case (Suc n)
  let ?S = "{i. i < n \<and> glyph i \<noteq> 0}"
  obtain w' cs' where c: "DrawChar_col (glyph n) n px py (w, cs) = (w', cs')"
    by (cases "DrawChar_col (glyph n) n px py (w, cs)")
  have w': "w' = (if glyph n \<noteq> 0 \<and> w = 0 then of_nat n else w)"
    using DrawChar_col_width[of "glyph n" n px py w cs] c by simp
  have n: "n \<le> 8" using Suc.prems by simp
  have IH: "unat (fst (DrawChar_loop glyph px py n (w', cs'))) =
     (if w' \<noteq> 0 then unat w' else Max (insert 0 ?S))"
    by (rule Suc.IH[OF n])
  have fin: "finite ?S" by simp
  show ?case
  proof (cases "glyph n \<noteq> 0")
    case True
    have S: "{i. i < Suc n \<and> glyph i \<noteq> 0} = insert n ?S"
      using True by (auto simp add: less_Suc_eq)
    have M: "Max (insert 0 (insert n ?S)) = n"
      by (rule Max_eqI) (use fin in auto)
    show ?thesis
    proof (cases "w = 0")
      case w0: True
      show ?thesis
      proof (cases "n = 0")
        case True
        then show ?thesis using w0 c w' IH \<open>glyph n \<noteq> 0\<close> S M by simp
      next
        case False
        then have "(of_nat n :: byte) \<noteq> 0" using n by (simp add: of_nat_byte_0)
        then show ?thesis
          using w0 c w' IH \<open>glyph n \<noteq> 0\<close> S M n by (simp add: unat_of_nat_byte_small)
      qed
    next
      case False
      then show ?thesis using c w' IH by simp
    qed
  next
    case False
    then have S: "{i. i < Suc n \<and> glyph i \<noteq> 0} = ?S"
      by (auto simp add: less_Suc_eq)
    show ?thesis using False c w' IH S by simp
  qed
qed

text \<open>
  C3, as amended. For every code and position, \<^verbatim>\<open>DrawChar\<close> returns the index of the
  rightmost set column of the glyph it draws, that is the largest \<open>i < 8\<close> whose column
  byte is not zero, and 0 when the glyph has no set column.
\<close>

theorem DrawChar_width:
  "unat (fst (DrawChar simpleFont ascii px py)) =
     Max (insert 0 {i. i < 8 \<and>
       simpleFont (unat (if ascii < 0x20 \<or> ascii > 0x7e then 0x2D else ascii) - 0x20) i \<noteq> 0})"
  unfolding DrawChar_def Let_def by (subst DrawChar_loop_width) simp_all

text \<open>
  C3 as stated fails: the leftmost set column of the example \<open>H\<close> is column 0, and
  \<^verbatim>\<open>DrawChar\<close> returns 3.
\<close>

theorem DrawChar_width_counterexample:
  "fst (DrawChar example_font 0x48 0 0) = 3 \<and>
   leftmost_set_column (example_font (0x48 - 0x20)) = 0 \<and>
   unat (fst (DrawChar example_font 0x48 0 0)) \<noteq> leftmost_set_column (example_font (0x48 - 0x20))"
  by code_simp

text \<open>
  C9. A code below 0x20 or above 0x7E is drawn as the hyphen: \<^verbatim>\<open>DrawChar\<close> makes the
  calls and returns the width that it makes and returns for code 0x2D. It has no error
  result.
\<close>

theorem DrawChar_placeholder:
  assumes "ascii < 0x20 \<or> ascii > 0x7e"
  shows "DrawChar simpleFont ascii px py = DrawChar simpleFont 0x2D px py"
  using assms by (simp add: DrawChar_def)

theorem DrawChar_placeholder_witness:
  "((0x10 :: byte) < 0x20 \<or> (0x10 :: byte) > 0x7e) \<and>
   DrawChar example_font 0x10 0 0 = DrawChar example_font 0x2D 0 0 \<and>
   DrawChar example_font 0x2D 0 0 = (2, [(2, 3), (1, 3), (0, 3)])"
proof -
  have h: "(0x10 :: byte) < 0x20 \<or> (0x10 :: byte) > 0x7e" by simp
  have "DrawChar example_font 0x2D 0 0 = (2, [(2, 3), (1, 3), (0, 3)])" by code_simp
  with DrawChar_placeholder[OF h, of example_font 0 0] h show ?thesis by blast
qed

section \<open>BlendDigits\<close>

text \<open>
  C4, as amended. \<^verbatim>\<open>BlendDigits(3, 4, 128, 0, 0)\<close> draws digit 3 with its top at row
  \<open>0 - 128/32 = -4\<close>, four rows up, and digit 4 with its top at row \<open>0 - 4 + 7 = 3\<close>, seven
  rows below digit 3 and so three rows down; each through \<^verbatim>\<open>DrawDigit\<close>, which reads the
  numeric font at the digit's code. Of digit 3 only its bottom row is on the buffer.
\<close>

theorem BlendDigits_3_4:
  "BlendDigits flash 3 4 128 0 0 = DrawDigit flash 3 0 (0 - 4) @ DrawDigit flash 4 0 (0 - 4 + 7) \<and>
   DrawDigit flash 3 0 (0 - 4) = [(0, 0), (1, 0), (2, 0)] \<and>
   DrawDigit flash 4 0 (0 - 4 + 7) =
     [(0, 3), (0, 4), (0, 5), (1, 5), (2, 3), (2, 4), (2, 5), (2, 6), (2, 7)]"
proof -
  have "BlendDigits flash 3 4 128 0 0 = DrawDigit flash 3 0 (0 - 4) @ DrawDigit flash 4 0 (0 - 4 + 7)"
    by (simp add: BlendDigits_def Let_def)
  moreover have "numberFont_byte fl 3 i = numberFont ! 3 ! i"
    "numberFont_byte fl 4 i = numberFont ! 4 ! i" for i fl
    by (simp_all add: numberFont_byte_def numberFont_def)
  then have "DrawDigit flash 3 0 (0 - 4) = DrawDigit blank_flash 3 0 (0 - 4)"
    "DrawDigit flash 4 0 (0 - 4 + 7) = DrawDigit blank_flash 4 0 (0 - 4 + 7)"
    by (simp_all add: DrawDigit_def cong del: if_weak_cong)
  moreover have "DrawDigit blank_flash 3 0 (0 - 4) = [(0, 0), (1, 0), (2, 0)]" by code_simp
  moreover have "DrawDigit blank_flash 4 0 (0 - 4 + 7) =
     [(0, 3), (0, 4), (0, 5), (1, 5), (2, 3), (2, 4), (2, 5), (2, 6), (2, 7)]" by code_simp
  ultimately show ?thesis by simp
qed

text \<open>
  C4 as stated fails: with digit 4 shifted up by 11 rows nothing of it would be drawn, and
  the operation draws nine pixels of it.
\<close>

theorem BlendDigits_counterexample:
  "DrawDigit blank_flash 4 0 (0 - 11) = [] \<and>
   BlendDigits blank_flash 3 4 128 0 0 \<noteq>
     DrawDigit blank_flash 3 0 (0 - 4) @ DrawDigit blank_flash 4 0 (0 - 11)"
  by code_simp

section \<open>ScrollLeft\<close>

lemma seg_state_0: "seg_state g fb0 e 0 = (fb0, int e - 1)"
proof -
  have "map (\<lambda>i. if e \<le> i + 0 \<and> i < e then g i else fb0 ! i) [0..<length fb0] = map ((!) fb0) [0..<length fb0]"
    by (rule map_cong) auto
  then show ?thesis by (simp add: seg_state_def map_nth)
qed

lemma seg_write:
  assumes "e \<le> length fb0" "j < e"
  shows "(fst (seg_state g fb0 e j))[e - 1 - j := g (e - 1 - j)] = fst (seg_state g fb0 e (Suc j))"
  unfolding seg_state_def fst_conv
  using assms by (intro nth_equalityI) (auto simp add: nth_list_update)

lemma seg_read_below:
  assumes "e \<le> length fb0" "i + j < e"
  shows "fst (seg_state g fb0 e j) ! i = fb0 ! i"
  unfolding seg_state_def fst_conv using assms by simp

lemma scroll_copy_seg:
  assumes "e \<le> length fb0" "j + k < e"
  shows "scroll_copy (int k) (seg_state (\<lambda>i. fb0 ! (i - k)) fb0 e j) =
         Some (seg_state (\<lambda>i. fb0 ! (i - k)) fb0 e (Suc j))"
proof -
  let ?g = "\<lambda>i. fb0 ! (i - k)"
  define fb where "fb = fst (seg_state ?g fb0 e j)"
  have len: "length fb = length fb0" by (simp add: fb_def seg_state_def)
  have st: "seg_state ?g fb0 e j = (fb, int (e - 1 - j))"
    using assms by (simp add: fb_def seg_state_def)
  have st': "seg_state ?g fb0 e (Suc j) = (fb[e - 1 - j := ?g (e - 1 - j)], int (e - 1 - j) - 1)"
    using assms seg_write[of e fb0 j ?g] by (simp add: fb_def seg_state_def)
  have rd: "int (e - 1 - j) - int k = int (e - 1 - j - k)" using assms by simp
  have "fb ! (e - 1 - j - k) = fb0 ! (e - 1 - j - k)"
    unfolding fb_def by (rule seg_read_below) (use assms in simp_all)
  moreover have "peek fb (int (e - 1 - j - k)) = Some (fb ! (e - 1 - j - k))"
    by (rule peek_in) (use assms len in simp)
  ultimately have pk: "peek fb (int (e - 1 - j - k)) = Some (fb0 ! (e - 1 - j - k))"
    by simp
  have po: "poke fb (int (e - 1 - j)) v = Some (fb[e - 1 - j := v])" for v
    by (rule poke_in) (use assms len in simp)
  show ?thesis
    unfolding st st' scroll_copy_def by (simp only: prod.case rd pk po Option.bind.bind_lunit)
qed

lemma scroll_zero_seg:
  assumes "e \<le> length fb0" "j < e"
  shows "scroll_zero (seg_state (\<lambda>i. 0) fb0 e j) = Some (seg_state (\<lambda>i. 0) fb0 e (Suc j))"
proof -
  let ?g = "\<lambda>i. 0 :: byte"
  define fb where "fb = fst (seg_state ?g fb0 e j)"
  have len: "length fb = length fb0" by (simp add: fb_def seg_state_def)
  have st: "seg_state ?g fb0 e j = (fb, int (e - 1 - j))"
    using assms by (simp add: fb_def seg_state_def)
  have st': "seg_state ?g fb0 e (Suc j) = (fb[e - 1 - j := ?g (e - 1 - j)], int (e - 1 - j) - 1)"
    using assms seg_write[of e fb0 j ?g] by (simp add: fb_def seg_state_def)
  have po: "poke fb (int (e - 1 - j)) v = Some (fb[e - 1 - j := v])" for v
    by (rule poke_in) (use assms len in simp)
  show ?thesis
    unfolding st st' scroll_zero_def by (simp only: prod.case po Option.bind.bind_lunit)
qed

lemma scroll_copy_loop_seg:
  "e \<le> length fb0 \<Longrightarrow> j + 3 * cnt + k \<le> e \<Longrightarrow>
   scroll_copy_loop cnt (int k) (seg_state (\<lambda>i. fb0 ! (i - k)) fb0 e j) =
   Some (seg_state (\<lambda>i. fb0 ! (i - k)) fb0 e (j + 3 * cnt))"
proof (induction cnt arbitrary: j)
  case 0
  show ?case by simp
next
  case (Suc cnt)
  have s: "j + k < e" "Suc j + k < e" "Suc (Suc j) + k < e" using Suc.prems(2) by simp_all
  have n: "Suc (Suc (Suc j)) + 3 * cnt + k \<le> e" using Suc.prems(2) by simp
  have e: "Suc (Suc (Suc j)) + 3 * cnt = j + 3 * Suc cnt" by simp
  show ?case
    by (simp only: scroll_copy_loop.simps scroll_copy_seg[OF Suc.prems(1) s(1)]
          scroll_copy_seg[OF Suc.prems(1) s(2)] scroll_copy_seg[OF Suc.prems(1) s(3)]
          Option.bind.bind_lunit Suc.IH[OF Suc.prems(1) n] e)
qed

lemma scroll_zero_loop_seg:
  "e \<le> length fb0 \<Longrightarrow> j + 3 * cnt \<le> e \<Longrightarrow>
   scroll_zero_loop cnt (seg_state (\<lambda>i. 0) fb0 e j) =
   Some (seg_state (\<lambda>i. 0) fb0 e (j + 3 * cnt))"
proof (induction cnt arbitrary: j)
  case 0
  show ?case by simp
next
  case (Suc cnt)
  have s: "j < e" "Suc j < e" "Suc (Suc j) < e" using Suc.prems(2) by simp_all
  have n: "Suc (Suc (Suc j)) + 3 * cnt \<le> e" using Suc.prems(2) by simp
  have e: "Suc (Suc (Suc j)) + 3 * cnt = j + 3 * Suc cnt" by simp
  show ?case
    by (simp only: scroll_zero_loop.simps scroll_zero_seg[OF Suc.prems(1) s(1)]
          scroll_zero_seg[OF Suc.prems(1) s(2)] scroll_zero_seg[OF Suc.prems(1) s(3)]
          Option.bind.bind_lunit Suc.IH[OF Suc.prems(1) n] e)
qed

lemma lines_state_0: "lines_state fb0 k 0 = (fb0, 23)"
  by (simp add: lines_state_def map_nth)

lemma row_mod:
  fixes r i :: nat
  assumes "24 * r \<le> i" "i < 24 * r + 24"
  shows "i mod 24 = i - 24 * r"
proof -
  from assms(1) obtain m where m: "i = 24 * r + m" by (auto simp add: le_iff_add)
  with assms(2) have "m < 24" by simp
  then show ?thesis by (simp add: m)
qed

lemma scroll_row:
  assumes len: "length fb0 = 192" and s: "s \<le> 8" and r: "r < 8"
  shows "\<exists>st fb2 p2.
     scroll_copy_loop (8 - s) (int (3 * s)) (lines_state fb0 (3 * s) r) = Some st \<and>
     scroll_zero_loop s st = Some (fb2, p2) \<and>
     (fb2, p2 + 48) = lines_state fb0 (3 * s) (Suc r)"
proof -
  define k where "k = 3 * s"
  define e where "e = 24 * r + 24"
  define e1 where "e1 = 24 * r + k"
  define fbr where "fbr = fst (lines_state fb0 k r)"
  define st where "st = seg_state (\<lambda>i. fbr ! (i - k)) fbr e (0 + 3 * (8 - s))"
  define fb1 where "fb1 = fst st"
  define st2 where "st2 = seg_state (\<lambda>i. 0) fb1 e1 (0 + 3 * s)"
  have lr: "length fbr = 192" by (simp add: fbr_def lines_state_def len)
  have l1: "length fb1 = 192" by (simp add: fb1_def st_def seg_state_def lr)
  have a: "lines_state fb0 k r = seg_state (\<lambda>i. fbr ! (i - k)) fbr e 0"
    by (simp add: seg_state_0 fbr_def e_def lines_state_def)
  have c: "scroll_copy_loop (8 - s) (int k) (lines_state fb0 k r) = Some st"
    unfolding a st_def
    by (rule scroll_copy_loop_seg) (use s r lr in \<open>simp_all add: e_def k_def\<close>)
  have b: "st = seg_state (\<lambda>i. 0) fb1 e1 0"
    using s by (simp add: seg_state_0 fb1_def) (simp add: st_def seg_state_def e_def e1_def k_def)
  have z: "scroll_zero_loop s st = Some st2"
    unfolding b st2_def
    by (rule scroll_zero_loop_seg) (use s r l1 in \<open>simp_all add: e1_def k_def\<close>)
  have p: "snd st2 + 48 = int (24 * Suc r + 24) - 1"
    by (simp add: st2_def seg_state_def e1_def k_def)
  have n_r: "fbr ! i = (if i < 24 * r then (if i mod 24 < k then 0 else fb0 ! (i - k)) else fb0 ! i)"
    if "i < 192" for i
    using that by (simp add: fbr_def lines_state_def len)
  have n_1: "fb1 ! i = (if 24 * r + k \<le> i \<and> i < 24 * r + 24 then fbr ! (i - k) else fbr ! i)"
    if "i < 192" for i
  proof -
    have "(e \<le> i + (0 + 3 * (8 - s))) = (24 * r + k \<le> i)"
      using s by (auto simp add: e_def k_def)
    then show ?thesis using that by (simp add: fb1_def st_def seg_state_def lr e_def)
  qed
  have n_2: "fst st2 ! i = (if 24 * r \<le> i \<and> i < 24 * r + k then 0 else fb1 ! i)"
    if "i < 192" for i
  proof -
    have "(e1 \<le> i + (0 + 3 * s)) = (24 * r \<le> i)"
      by (auto simp add: e1_def k_def)
    then show ?thesis using that by (simp add: st2_def seg_state_def l1 e1_def)
  qed
  have f: "fst st2 = fst (lines_state fb0 k (Suc r))"
  proof (rule nth_equalityI)
    show "length (fst st2) = length (fst (lines_state fb0 k (Suc r)))"
      by (simp add: st2_def seg_state_def lines_state_def l1 len)
  next
    fix i assume "i < length (fst st2)"
    then have i: "i < 192" by (simp add: st2_def seg_state_def l1)
    have t: "fst (lines_state fb0 k (Suc r)) ! i =
       (if i < 24 * r + 24 then (if i mod 24 < k then 0 else fb0 ! (i - k)) else fb0 ! i)"
      using i by (simp add: lines_state_def len)
    have k24: "k \<le> 24" using s by (simp add: k_def)
    consider "i < 24 * r" | "24 * r \<le> i" "i < 24 * r + k" | "24 * r + k \<le> i" "i < 24 * r + 24" | "24 * r + 24 \<le> i"
      by linarith
    then show "fst st2 ! i = fst (lines_state fb0 k (Suc r)) ! i"
    proof cases
      case 1
      then show ?thesis unfolding t n_2[OF i] n_1[OF i] n_r[OF i] by simp
    next
      case 2
      then have "i mod 24 = i - 24 * r" using k24 by (intro row_mod) simp_all
      moreover have "i - 24 * r < k" using 2 by linarith
      ultimately show ?thesis unfolding t n_2[OF i] using 2 k24 by simp
    next
      case 3
      then have m: "i mod 24 = i - 24 * r" by (intro row_mod) simp_all
      have ik: "i - k < 192" using i by simp
      have "\<not> i - k < 24 * r" using 3 by linarith
      then have "fbr ! (i - k) = fb0 ! (i - k)" unfolding n_r[OF ik] by simp
      moreover have "\<not> i - 24 * r < k" using 3 by linarith
      ultimately show ?thesis unfolding t n_2[OF i] n_1[OF i] using 3 m by simp
    next
      case 4
      then have "\<not> i < 24 * r + k" "\<not> i < 24 * r" using k24 by linarith+
      then show ?thesis unfolding t n_2[OF i] n_1[OF i] n_r[OF i] using 4 by simp
    qed
  qed
  have q: "(fst st2, snd st2 + 48) = lines_state fb0 k (Suc r)"
    using p f by (simp add: lines_state_def)
  have z': "scroll_zero_loop s st = Some (fst st2, snd st2)" using z by simp
  show ?thesis
    apply (rule exI[of _ st])
    apply (rule exI[of _ "fst st2"])
    apply (rule exI[of _ "snd st2"])
    using c z' q unfolding k_def by (intro conjI)
qed

lemma scroll_lines_state:
  assumes len: "length fb0 = 192" and s: "unat steps \<le> 8"
  shows "r + n \<le> 8 \<Longrightarrow>
    scroll_lines n steps (lines_state fb0 (3 * unat steps) r) =
    Some (lines_state fb0 (3 * unat steps) (r + n))"
proof (induction n arbitrary: r)
  case 0
  show ?case by simp
next
  case (Suc n)
  have r: "r < 8" and n: "Suc r + n \<le> 8" using Suc.prems by simp_all
  have u: "unat (8 - steps) = 8 - unat steps"
    using s by (simp add: unat_sub word_le_nat_alt)
  have k: "3 * uint steps = int (3 * unat steps)" by simp
  from scroll_row[OF len s r] obtain st where
    "\<exists>fb2 p2. scroll_copy_loop (8 - unat steps) (int (3 * unat steps)) (lines_state fb0 (3 * unat steps) r) = Some st \<and>
     scroll_zero_loop (unat steps) st = Some (fb2, p2) \<and>
     (fb2, p2 + 48) = lines_state fb0 (3 * unat steps) (Suc r)" ..
  then obtain fb2 where
    "\<exists>p2. scroll_copy_loop (8 - unat steps) (int (3 * unat steps)) (lines_state fb0 (3 * unat steps) r) = Some st \<and>
     scroll_zero_loop (unat steps) st = Some (fb2, p2) \<and>
     (fb2, p2 + 48) = lines_state fb0 (3 * unat steps) (Suc r)" ..
  then obtain p2 where cze:
    "scroll_copy_loop (8 - unat steps) (int (3 * unat steps)) (lines_state fb0 (3 * unat steps) r) = Some st \<and>
     scroll_zero_loop (unat steps) st = Some (fb2, p2) \<and>
     (fb2, p2 + 48) = lines_state fb0 (3 * unat steps) (Suc r)" ..
  note c = cze[THEN conjunct1] and z = cze[THEN conjunct2, THEN conjunct1]
    and e = cze[THEN conjunct2, THEN conjunct2]
  have t: "(8::int) * 2 * 3 = 48" by simp
  have "scroll_lines (Suc n) steps (lines_state fb0 (3 * unat steps) r) =
        scroll_lines n steps (fb2, p2 + 48)"
    by (simp only: scroll_lines.simps u k c z t Option.bind.bind_lunit prod.case)
  also have "\<dots> = Some (lines_state fb0 (3 * unat steps) (Suc r + n))"
    unfolding e by (rule Suc.IH[OF n])
  finally show ?case by (simp only: add_Suc add_Suc_right)
qed

lemma ScrollLeft_eq:
  assumes "length fb = 192" "unat steps \<le> 8"
  shows "ScrollLeft fb steps =
    Some (map (\<lambda>i. if i mod 24 < 3 * unat steps then 0 else fb ! (i - 3 * unat steps)) [0..<192])"
proof -
  have "scroll_lines 8 steps (lines_state fb (3 * unat steps) 0) =
     Some (lines_state fb (3 * unat steps) (0 + 8))"
    by (rule scroll_lines_state[OF assms]) simp
  then show ?thesis
    using assms(1) by (simp add: ScrollLeft_def lines_state_0) (simp add: lines_state_def)
qed

text \<open>
  C5. For every step count \<open>k\<close> below the width and every buffer, \<^verbatim>\<open>ScrollLeft(k)\<close> stays
  inside the buffer, and afterwards column \<open>c\<close> of each row holds what column \<open>c + k\<close> of
  that row held before when \<open>c < 8 - k\<close>, and black otherwise.
\<close>

theorem ScrollLeft_shift:
  assumes "length fb = 192" "unat k < 8" "c < 8" "y < 8"
  shows "\<exists>fb'. ScrollLeft fb k = Some fb' \<and> length fb' = 192 \<and>
     get_pixel fb' c y =
       (if c < 8 - unat k then get_pixel fb (c + unat k) y else (0, 0, 0))"
proof -
  define fb' where
    "fb' = map (\<lambda>i. if i mod 24 < 3 * unat k then 0 else fb ! (i - 3 * unat k)) [0..<192]"
  define p where "p = pixel_offset c y"
  have le: "unat k \<le> 8" using assms(2) by simp
  have S: "ScrollLeft fb k = Some fb'"
    unfolding fb'_def by (rule ScrollLeft_eq[OF assms(1) le])
  have o: "p = 24 * y + 3 * (7 - c)" by (simp add: p_def pixel_offset_def)
  have byte: "fb' ! (p + j) =
      (if c < 8 - unat k then fb ! (pixel_offset (c + unat k) y + j) else 0)" if "j < 3" for j
  proof -
    have b: "p + j < 192" using that assms(3,4) by (simp add: o)
    have "(p + j) mod 24 = (3 * (7 - c) + j) mod 24"
      unfolding o by (simp add: add.assoc)
    also have "\<dots> = 3 * (7 - c) + j" using that assms(3) by simp
    finally have m: "(p + j) mod 24 = 3 * (7 - c) + j" .
    have v: "fb' ! (p + j) =
       (if (p + j) mod 24 < 3 * unat k then 0 else fb ! (p + j - 3 * unat k))"
      using b by (simp add: fb'_def)
    show ?thesis
    proof (cases "c < 8 - unat k")
      case True
      then have "\<not> (3 * (7 - c) + j < 3 * unat k)" by simp
      moreover have "p + j - 3 * unat k = pixel_offset (c + unat k) y + j"
        using True by (simp add: o pixel_offset_def)
      ultimately show ?thesis using True by (simp add: v m)
    next
      case False
      then have "3 * (7 - c) + j < 3 * unat k" using that assms(3) by simp
      then show ?thesis using False by (simp add: v m)
    qed
  qed
  have len: "length fb' = 192" by (simp add: fb'_def)
  have b0: "fb' ! p = (if c < 8 - unat k then fb ! pixel_offset (c + unat k) y else 0)"
    using byte[of 0] by simp
  have b1: "fb' ! (p + 1) = (if c < 8 - unat k then fb ! (pixel_offset (c + unat k) y + 1) else 0)"
    using byte[of 1] by simp
  have b2: "fb' ! (p + 2) = (if c < 8 - unat k then fb ! (pixel_offset (c + unat k) y + 2) else 0)"
    using byte[of 2] by simp
  have g: "get_pixel fb' c y =
       (if c < 8 - unat k then get_pixel fb (c + unat k) y else (0, 0, 0))"
    unfolding get_pixel_def p_def[symmetric] b0 b1 b2
    by (cases "c < 8 - unat k") simp_all
  show ?thesis
    by (rule exI[of _ fb']) (simp only: S len g simp_thms)
qed

theorem ScrollLeft_shift_witness:
  "length (replicate 192 (7 :: byte)) = 192 \<and> unat (3 :: byte) < 8 \<and> (1 :: nat) < 8 \<and> (6 :: nat) < 8 \<and>
   (\<exists>fb'. ScrollLeft (replicate 192 7) 3 = Some fb' \<and> length fb' = 192 \<and>
      get_pixel fb' 1 2 = get_pixel (replicate 192 7) 4 2) \<and>
   (\<exists>fb'. ScrollLeft (replicate 192 7) 3 = Some fb' \<and> length fb' = 192 \<and>
      get_pixel fb' 6 2 = (0, 0, 0))"
proof -
  have h: "length (replicate 192 (7 :: byte)) = 192" "unat (3 :: byte) < 8" by simp_all
  have c: "(1 :: nat) < 8" "(6 :: nat) < 8" "(2 :: nat) < 8" by simp_all
  show ?thesis
    using ScrollLeft_shift[OF h c(1) c(3)] ScrollLeft_shift[OF h c(2) c(3)] h c by simp
qed

section \<open>Time of day\<close>

lemma step_closed:
  assumes "l < 8" "m < 125" "t < 86400"
  shows "ISR_timekeeping \<lparr>line = of_nat l, ARGB_user_frame = u, ARGB_clock_ms = of_nat (8 * m), ARGB_clock_tod = of_nat t\<rparr>
     = (if l = 7 then
          (if m = 124 then \<lparr>line = 0, ARGB_user_frame = 1, ARGB_clock_ms = 0, ARGB_clock_tod = (if t = 86399 then 0 else of_nat (t + 1))\<rparr>
           else \<lparr>line = 0, ARGB_user_frame = 1, ARGB_clock_ms = of_nat (8 * (m + 1)), ARGB_clock_tod = of_nat t\<rparr>)
        else \<lparr>line = of_nat (l + 1), ARGB_user_frame = u, ARGB_clock_ms = of_nat (8 * m), ARGB_clock_tod = of_nat t\<rparr>)"
proof -
  have a: "(8 \<le> (of_nat l + 1 :: byte)) = (l = 7)"
    using assms(1) by (auto simp add: word_le_nat_alt unat_word_ariths unat_of_nat) 
  have b: "(1000 \<le> (8 * of_nat m + 8 :: uint)) = (m = 124)"
    using assms(2) by (auto simp add: word_le_nat_alt unat_word_ariths unat_of_nat word_arith_nat_div) 
  have c: "(86400 \<le> (of_nat t + 1 :: ulong)) = (t = 86399)"
    using assms(3) by (auto simp add: word_le_nat_alt unat_word_ariths unat_of_nat) 
  have d: "(1000 div 125 :: uint) = 8" by (simp add: word_arith_nat_div)
  show ?thesis
    by (simp add: ISR_timekeeping_def Let_def d a b c)
qed

lemma closed: "(ISR_timekeeping ^^ n) clock_init = clock_after n"
proof (induction n)
  case 0 show ?case by (simp add: clock_init_def clock_after_def)
next
  case (Suc n)
  have s: "ISR_timekeeping (clock_after n) = clock_after (Suc n)"
  proof -
    define q where "q = n div 8"
    define d where "d = q div 125"
    have r: "n mod 8 = 7 \<Longrightarrow> Suc n mod 8 = 0 \<and> Suc n div 8 = Suc q"
            "n mod 8 \<noteq> 7 \<Longrightarrow> Suc n mod 8 = n mod 8 + 1 \<and> Suc n div 8 = q"
      unfolding q_def by (simp_all add: mod_Suc div_Suc)
    have m: "q mod 125 = 124 \<Longrightarrow> Suc q mod 125 = 0 \<and> Suc q div 125 = Suc d"
            "q mod 125 \<noteq> 124 \<Longrightarrow> Suc q mod 125 = q mod 125 + 1 \<and> Suc q div 125 = d"
      unfolding d_def by (simp_all add: mod_Suc div_Suc)
    have t: "d mod 86400 = 86399 \<Longrightarrow> Suc d mod 86400 = 0"
            "d mod 86400 \<noteq> 86399 \<Longrightarrow> Suc d mod 86400 = d mod 86400 + 1"
      by (simp_all add: mod_Suc)
    have f: "n mod 8 = 7 \<Longrightarrow> \<not> Suc n < 8" "n mod 8 \<noteq> 7 \<Longrightarrow> (Suc n < 8) = (n < 8)"
      by auto
    have "ISR_timekeeping (clock_after n) =
      (if n mod 8 = 7 then
          (if q mod 125 = 124 then \<lparr>line = 0, ARGB_user_frame = 1, ARGB_clock_ms = 0, ARGB_clock_tod = (if d mod 86400 = 86399 then 0 else of_nat (d mod 86400 + 1))\<rparr>
           else \<lparr>line = 0, ARGB_user_frame = 1, ARGB_clock_ms = of_nat (8 * (q mod 125 + 1)), ARGB_clock_tod = of_nat (d mod 86400)\<rparr>)
        else \<lparr>line = of_nat (n mod 8 + 1), ARGB_user_frame = (if n < 8 then 0 else 1), ARGB_clock_ms = of_nat (8 * (q mod 125)), ARGB_clock_tod = of_nat (d mod 86400)\<rparr>)"
      unfolding clock_after_def q_def d_def by (subst step_closed) simp_all
    also have "\<dots> = clock_after (Suc n)"
      unfolding clock_after_def using r m t f by (simp add: q_def[symmetric] d_def[symmetric] del: of_nat_Suc of_nat_add of_nat_mult)
    finally show ?thesis .
  qed
  show ?case by (simp add: Suc s)
qed

lemma tod_after: "ARGB_clock_tod ((ISR_timekeeping ^^ n) clock_init) = of_nat (n div 1000 mod 86400)"
  by (simp add: closed clock_after_def div_mult2_eq[symmetric])

text \<open>
  C6. Started from zero and changed only by the interrupt, the time-of-day counter is below
  86400 after every interrupt. A second takes 1000 interrupts (125 frames of 8 lines):
  after \<open>86399 * 1000\<close> of them the counter reads 86399, and the increment that follows, at
  interrupt \<open>86400 * 1000\<close>, leaves it at 0.
\<close>

theorem tod_counter:
  "ARGB_clock_tod ((ISR_timekeeping ^^ n) clock_init) < 86400 \<and>
   ARGB_clock_tod ((ISR_timekeeping ^^ (86399 * 1000)) clock_init) = 86399 \<and>
   ARGB_clock_tod ((ISR_timekeeping ^^ (86400 * 1000 - 1)) clock_init) = 86399 \<and>
   ARGB_clock_tod ((ISR_timekeeping ^^ (86400 * 1000)) clock_init) = 0"
proof -
  have "ARGB_clock_tod ((ISR_timekeeping ^^ n) clock_init) < 86400"
    by (simp add: tod_after word_less_nat_alt unat_of_nat)
  moreover have "ARGB_clock_tod ((ISR_timekeeping ^^ (86399 * 1000)) clock_init) = 86399"
    by (simp add: tod_after)
  moreover have "ARGB_clock_tod ((ISR_timekeeping ^^ (86400 * 1000 - 1)) clock_init) = 86399"
    by (simp add: tod_after)
  moreover have "ARGB_clock_tod ((ISR_timekeeping ^^ (86400 * 1000)) clock_init) = 0"
    by (simp add: tod_after)
  ultimately show ?thesis by (intro conjI)
qed

section \<open>Fade\<close>

lemma Fade_byte_faded:
  assumes "p < length fb0"
  shows "Fade_byte alpha (faded alpha fb0 p) = faded alpha fb0 (Suc p)"
proof -
  have d: "drop p fb0 = fb0 ! p # drop (Suc p) fb0"
    using assms by (simp add: Cons_nth_drop_Suc)
  have t: "take (Suc p) fb0 = take p fb0 @ [fb0 ! p]"
    using assms by (simp add: take_Suc_conv_app_nth)
  have l: "length (map (scale alpha) (take p fb0)) = p" using assms by simp
  show ?thesis
    unfolding faded_def Fade_byte_def d t using l
    by (simp add: nth_append list_update_append)
qed

lemma Fade_pixel_faded:
  assumes "p + 3 \<le> length fb0"
  shows "Fade_pixel alpha (faded alpha fb0 p) = faded alpha fb0 (p + 3)"
proof -
  have e: "p + 3 = Suc (Suc (Suc p))" by simp
  show ?thesis using assms unfolding e by (simp add: Fade_pixel_def Fade_byte_faded)
qed

lemma Fade_loop_faded:
  "p + 12 * cnt \<le> length fb0 \<Longrightarrow>
   Fade_loop cnt alpha (faded alpha fb0 p) = faded alpha fb0 (p + 12 * cnt)"
proof (induction cnt arbitrary: p)
  case 0
  show ?case by simp
next
  case (Suc cnt)
  have "Fade_loop (Suc cnt) alpha (faded alpha fb0 p) = Fade_loop cnt alpha (faded alpha fb0 (p + 12))"
  proof -
    have e: "p + 3 + 3 + 3 + 3 = p + 12" by simp
    have l: "p + 3 \<le> length fb0" "p + 3 + 3 \<le> length fb0" "p + 3 + 3 + 3 \<le> length fb0"
      "p + 3 + 3 + 3 + 3 \<le> length fb0" using Suc.prems by simp_all
    have "Fade_pixel alpha (Fade_pixel alpha (Fade_pixel alpha (Fade_pixel alpha (faded alpha fb0 p))))
        = faded alpha fb0 (p + 3 + 3 + 3 + 3)"
      by (simp only: Fade_pixel_faded[OF l(1)] Fade_pixel_faded[OF l(2)]
            Fade_pixel_faded[OF l(3)] Fade_pixel_faded[OF l(4)]) 
    then show ?thesis by (simp only: Fade_loop.simps e)
  qed
  also have "\<dots> = faded alpha fb0 (p + 12 + 12 * cnt)"
    using Suc.prems by (intro Suc.IH) simp
  finally show ?case by (simp add: add.assoc)
qed

lemma Fade_eq_map:
  assumes "length fb = 192"
  shows "Fade fb alpha = map (scale alpha) fb"
proof -
  have "Fade_loop 16 alpha (faded alpha fb 0) = faded alpha fb (0 + 12 * 16)"
    using assms by (intro Fade_loop_faded) simp
  then show ?thesis using assms by (simp add: Fade_def faded_def)
qed

lemma unat_scale: "unat (scale f v) = unat f * unat v div 256"
proof -
  have b: "unat f \<le> 255" "unat v \<le> 255" by (rule unat_byte_le)+
  have "unat f * unat v \<le> 255 * 255" using b by (rule mult_le_mono)
  then have s: "unat f * unat v < 65536" by simp
  define W where "W = (ucast f :: uint) * ucast v"
  have u: "unat W = unat f * unat v"
    using s by (simp add: W_def unat_word_ariths unat_ucast_byte_uint)
  have "unat (ucast (drop_bit 8 W) :: byte) = take_bit 8 (drop_bit 8 (unat W))"
    by (simp only: unsigned_ucast_eq unat_drop_bit_eq len_bit0 len_num1) simp
  also have "\<dots> = unat W div 256"
    using s u by (simp add: drop_bit_eq_div take_bit_nat_eq_self)
  finally show ?thesis unfolding scale_def W_def[symmetric] by (simp only: u)
qed

lemma unat_scale_255: "unat (scale 255 v) = unat v - 1"
  using unat_byte_le[of v] by (simp add: unat_scale) 

lemma unat_scale_255_pow: "unat ((scale 255 ^^ n) v) = unat v - n"
  by (induction n) (simp_all add: unat_scale_255)

lemma Fade_pow_map:
  assumes "length fb = 192"
  shows "((\<lambda>b. Fade b 255) ^^ n) fb = map (scale 255 ^^ n) fb"
proof (induction n)
  case 0 show ?case by simp
next
  case (Suc n)
  then show ?case using assms by (simp add: Fade_eq_map)
qed

text \<open>
  C7. One \<^verbatim>\<open>Fade(255)\<close> never increases a byte of the buffer and lowers it by at most 1;
  so each further application is again no larger, and from the 255th application on the
  byte is 0.
\<close>

theorem Fade_255:
  assumes "length fb = 192" "i < 192"
  shows "unat (Fade fb 255 ! i) \<le> unat (fb ! i) \<and>
         unat (fb ! i) - unat (Fade fb 255 ! i) \<le> 1 \<and>
         unat (((\<lambda>b. Fade b 255) ^^ Suc n) fb ! i) \<le> unat (((\<lambda>b. Fade b 255) ^^ n) fb ! i) \<and>
         ((\<lambda>b. Fade b 255) ^^ (255 + n)) fb ! i = 0"
proof -
  have z: "(scale 255 ^^ (255 + n)) (fb ! i) = 0"
    using unat_byte_le[of "fb ! i"] unat_scale_255_pow[of "255 + n" "fb ! i"]
    by (simp add: unat_eq_0)
  show ?thesis
    unfolding Fade_pow_map[OF assms(1)] Fade_eq_map[OF assms(1)] using assms z
    by (simp add: unat_scale_255 unat_scale_255_pow del: funpow.simps) arith
qed

theorem Fade_255_witness:
  "length (replicate 192 (200 :: byte)) = 192 \<and> (5 :: nat) < 192 \<and>
   unat (Fade (replicate 192 200) 255 ! 5) \<le> unat (replicate 192 (200 :: byte) ! 5) \<and>
   ((\<lambda>b. Fade b 255) ^^ (255 + 0)) (replicate 192 200) ! 5 = 0"
proof -
  have h: "length (replicate 192 (200 :: byte)) = 192" "(5 :: nat) < 192" by simp_all
  show ?thesis using Fade_255[OF h, of 0] h by blast
qed

section \<open>Fill\<close>

lemma Fill_pixel_filled:
  assumes "3 * n + 3 \<le> length fb0"
  shows "Fill_pixel r g b (filled r g b fb0 n) = filled r g b fb0 (Suc n)"
proof -
  let ?xs = "concat (replicate n [r, g, b])"
  have l: "length ?xs = 3 * n" by (induction n) simp_all
  have e: "3 * n + 1 = Suc (3 * n)" "3 * n + 2 = Suc (Suc (3 * n))"
    "3 * n + 3 = Suc (Suc (Suc (3 * n)))" by simp_all
  have d: "drop (3 * n) fb0 = fb0 ! (3 * n) # fb0 ! (3 * n + 1) # fb0 ! (3 * n + 2) # drop (3 * n + 3) fb0"
    unfolding e using assms by (simp add: Cons_nth_drop_Suc)
  have c: "concat (replicate (Suc n) [r, g, b]) = ?xs @ [r, g, b]"
    by (induction n) simp_all
  have u: "(?xs @ ys)[3 * n := r, 3 * n + 1 := g, 3 * n + 2 := b] = ?xs @ ys[0 := r, 1 := g, 2 := b]" for ys
    using l by (simp add: list_update_append)
  show ?thesis
    unfolding filled_def Fill_pixel_def prod.case u c d by (simp add: add.commute)
qed

lemma Fill_loop_filled:
  "3 * n + 12 * cnt \<le> length fb0 \<Longrightarrow>
   Fill_loop cnt r g b (filled r g b fb0 n) = filled r g b fb0 (n + 4 * cnt)"
proof (induction cnt arbitrary: n)
  case 0
  show ?case by simp
next
  case (Suc cnt)
  have l: "3 * n + 3 \<le> length fb0" "3 * Suc n + 3 \<le> length fb0"
    "3 * Suc (Suc n) + 3 \<le> length fb0" "3 * Suc (Suc (Suc n)) + 3 \<le> length fb0"
    using Suc.prems by simp_all
  have n: "3 * Suc (Suc (Suc (Suc n))) + 12 * cnt \<le> length fb0" using Suc.prems by simp
  have e: "Suc (Suc (Suc (Suc n))) + 4 * cnt = n + 4 * Suc cnt" by simp
  show ?case
    by (simp only: Fill_loop.simps Fill_pixel_filled[OF l(1)] Fill_pixel_filled[OF l(2)]
          Fill_pixel_filled[OF l(3)] Fill_pixel_filled[OF l(4)] Suc.IH[OF n] e)
qed

lemma nth_concat_replicate3:
  "m < n \<Longrightarrow> j < 3 \<Longrightarrow> concat (replicate n [r, g, b]) ! (3 * m + j) = [r, g, b] ! j"
proof (induction n arbitrary: m)
  case 0
  then show ?case by simp
next
  case (Suc n)
  show ?case
  proof (cases m)
    case 0
    then show ?thesis using Suc.prems(2) by (simp add: nth_Cons')
  next
    case (Suc k)
    then have "concat (replicate n [r, g, b]) ! (3 * k + j) = [r, g, b] ! j"
      using Suc.prems Suc.IH[of k] by simp
    then show ?thesis using Suc by simp 
  qed
qed

lemma Fill_eq:
  assumes "length fb = 192"
  shows "Fill fb color =
    concat (replicate 64 [color_g color, color_r color, color_b color])"
proof -
  have f0: "filled r g b fb 0 = (fb, 0)" for r g b by (simp add: filled_def)
  have "Fill_loop 16 r g b (filled r g b fb 0) = filled r g b fb (0 + 4 * 16)" for r g b
    using assms by (intro Fill_loop_filled) simp
  then show ?thesis
    using assms by (simp add: Fill_def f0 color_g_def color_r_def color_b_def) (simp add: filled_def)
qed

lemma Fill_pixel_value:
  assumes "length fb = 192" "x < 8" "y < 8"
  shows "get_pixel (Fill fb color) x y = (color_g color, color_r color, color_b color)"
proof -
  have o: "pixel_offset x y = 3 * ((7 - x) + y * 8)" by (simp add: pixel_offset_def)
  have m: "(7 - x) + y * 8 < 64" using assms(2,3) by simp
  let ?px = "[color_g color, color_r color, color_b color]"
  have n: "concat (replicate 64 ?px) ! (3 * ((7 - x) + y * 8) + j) = ?px ! j" if "j < 3" for j
    using m that by (rule nth_concat_replicate3)
  show ?thesis
    unfolding Fill_eq[OF assms(1)] get_pixel_def o
    using n[of 0] n[of 1] n[of 2] by simp
qed

text \<open>
  What \<^verbatim>\<open>SetPixel\<close> leaves alone: every byte outside the three of the addressed pixel.
\<close>

lemma SetPixel_frame:
  assumes "length fb = 192" "in_range x y" "SetPixel fb x y color = Some fb'"
    and "i < pixel_offset (unat x) (unat y) \<or> pixel_offset (unat x) (unat y) + 2 < i"
  shows "fb' ! i = fb ! i"
proof -
  define p where "p = pixel_offset (unat x) (unat y)"
  have ux: "unat x < 8" and uy: "unat y < 8"
    using assms(2) by (simp_all add: in_range_def small_point_unat)
  have p: "p + 2 < length fb" using pixel_offset_bound[OF ux uy] assms(1) by (simp add: p_def)
  have pb: "2 + sint (3 * ((8 - 1 - x) + y * 8)) = int (p + 2)"
    unfolding p_def by (rule pb_offset[OF assms(2)])
  have i: "i \<noteq> p" "i \<noteq> p + 1" "i \<noteq> p + 2" using assms(4) by (auto simp add: p_def)
  show ?thesis
  proof (cases "color_a color = 255")
    case True
    show ?thesis using assms(3) i unfolding SetPixel_opaque[OF p True pb] by auto
  next
    case False
    show ?thesis using assms(3) i unfolding SetPixel_blend[OF p False pb] by auto
  qed
qed

text \<open>
  C8. \<^verbatim>\<open>Fill\<close> takes its \<^verbatim>\<open>r\<close> from bits 8 to 15 of the colour and its \<^verbatim>\<open>g\<close> from bits
  16 to 23, which are the colour's green and red bytes, and stores \<^verbatim>\<open>r\<close> first. Filling
  with opaque red therefore leaves every pixel green: the pixel read back in the R, G, B
  order of \<^verbatim>\<open>SetPixel\<close> and of the transmitter is (0, 255, 0), while the colour's
  channels are (255, 0, 0).
\<close>

theorem Fill_red_gives_green:
  "get_pixel (Fill (replicate 192 0) 0xFFFF0000) 0 0 = (0, 0xFF, 0) \<and>
   (color_r 0xFFFF0000, color_g 0xFFFF0000, color_b 0xFFFF0000) = (0xFF, 0, 0) \<and>
   pixel_after (SetPixel (replicate 192 0) 0 0 0xFFFF0000) 0 0 = Some (0xFF, 0, 0)"
  by code_simp

section \<open>Base colours\<close>

lemma pgm_read_BaseColors:
  "pgm_read BaseColors (unat i mod 12) = Some (BaseColors ! (unat i mod 12))"
  by (simp add: pgm_read_def BaseColors_def)

text \<open>
  C10. For every byte index, \<^verbatim>\<open>GetBaseColor\<close> and \<^verbatim>\<open>BlendBaseColors\<close> read the colour
  table at the index modulo 12, which is inside the table; an index and its remainder
  modulo 12 give the same colour.
\<close>

theorem BaseColor_index:
  "GetBaseColor i = Some (BaseColors ! (unat i mod 12)) \<and>
   unat i mod 12 < length BaseColors \<and>
   GetBaseColor i = GetBaseColor (i mod 12) \<and>
   BlendBaseColors i j blend fade =
     Some (BlendARGB (BaseColors ! (unat i mod 12)) (BaseColors ! (unat j mod 12)) blend fade)"
proof -
  have "unat (i mod 12) mod 12 = unat i mod 12" by (simp add: unat_mod)
  then have "GetBaseColor i = GetBaseColor (i mod 12)" by (simp add: GetBaseColor_def)
  moreover have "unat i mod 12 < length BaseColors" by (simp add: BaseColors_def)
  ultimately show ?thesis
    by (simp add: GetBaseColor_def BlendBaseColors_def pgm_read_BaseColors)
qed

end
